theory Spec2Isabelle
  imports Main "HOL-Library.Word"
begin

unbundle bit_operations_syntax

section \<open>Data model\<close>

text \<open>
  The decoder of \<^verbatim>\<open>src/riff.py\<close> works on Python \<^verbatim>\<open>bytes\<close>, on Python's unbounded
  integers and on Python \<^verbatim>\<open>str\<close>. Bytes are 8-bit words, integers are \<^typ>\<open>int\<close>, and a
  \<^verbatim>\<open>str\<close> is the list of its code points.
\<close>

type_synonym byte = "8 word"
type_synonym pystr = "nat list"

text \<open>
  The exceptions the decoder can raise. \<^verbatim>\<open>parse_data\<close> raises
  \<^verbatim>\<open>ValueError(f"Unknown chunk ID: {id}")\<close>; the \<^verbatim>\<open>IntEnum\<close> constructors raise
  \<^verbatim>\<open>ValueError("<n> is not a valid <Enum>")\<close>; indexing the string table raises
  \<^verbatim>\<open>IndexError\<close>; reading \<^verbatim>\<open>self.string_table\<close> before any \<^verbatim>\<open>stri\<close> chunk has set it raises
  \<^verbatim>\<open>AttributeError\<close>; \<^verbatim>\<open>bytes.decode\<close> raises \<^verbatim>\<open>UnicodeDecodeError\<close>; \<^verbatim>\<open>zlib.decompress\<close>
  raises \<^verbatim>\<open>zlib.error\<close>.
\<close>

datatype py_error =
    UnknownChunkID pystr
  | NotAValidEnum string int
  | IndexError
  | AttributeError
  | UnicodeDecodeError
  | ZlibError

subsection \<open>The byte cursor\<close>

text \<open>
  \<^verbatim>\<open>BytesIO(data)\<close> and the opened file: a buffer and a position. \<^verbatim>\<open>read(n)\<close> returns the
  bytes from the position on, at most \<open>n\<close> of them and fewer when fewer remain, and advances
  the position by the number of bytes it returned. It never raises.
\<close>

record stream =
  buf :: "byte list"
  pos :: nat

definition BytesIO :: "byte list \<Rightarrow> stream" where
  "BytesIO data = \<lparr>buf = data, pos = 0\<rparr>"

definition tell :: "stream \<Rightarrow> nat" where
  "tell s = pos s"

definition read :: "nat \<Rightarrow> stream \<Rightarrow> byte list \<times> stream" where
  "read n s =
     (let bs = take n (drop (pos s) (buf s))
      in (bs, s\<lparr>pos := pos s + length bs\<rparr>))"

text \<open>\<^verbatim>\<open>int.from_bytes(bs, byteorder='little')\<close>; the empty byte string gives 0.\<close>

fun from_bytes_little :: "byte list \<Rightarrow> int" where
  "from_bytes_little [] = 0"
| "from_bytes_little (b # bs) = uint b + 256 * from_bytes_little bs"

text \<open>\<^verbatim>\<open>bytes.hex()\<close>: two lowercase hexadecimal digits per byte.\<close>

definition hexdigit :: "nat \<Rightarrow> char" where
  "hexdigit n = ''0123456789abcdef'' ! n"

definition hex :: "byte list \<Rightarrow> string" where
  "hex bs = concat (map (\<lambda>b. [hexdigit (unat b div 16), hexdigit (unat b mod 16)]) bs)"

definition consume_id :: "stream \<Rightarrow> string \<times> stream" where
  "consume_id s = (let (bs, s') = read 8 s in (hex bs, s'))"

definition consume8 :: "stream \<Rightarrow> int \<times> stream" where
  "consume8 s = (let (bs, s') = read 1 s in (from_bytes_little bs, s'))"

subsection \<open>The varint decoder\<close>

text \<open>
  The local \<^verbatim>\<open>more = 1 << 7\<close> of \<^verbatim>\<open>consume_var\<close> (primed here: every record has a field of
  that name).
\<close>

definition more' :: int where
  "more' = push_bit 7 1"

text \<open>
  The \<^verbatim>\<open>while (b & more) and shift < 32\<close> loop of \<^verbatim>\<open>consume_var\<close>, with the loop variables
  \<open>b\<close>, \<open>val\<close> and \<open>shift\<close>. Python's \<^verbatim>\<open>~more\<close> is the integer \<open>-129\<close>, here \<open>NOT more'\<close>.
\<close>

function consume_var_loop :: "int \<Rightarrow> int \<Rightarrow> nat \<Rightarrow> stream \<Rightarrow> int \<times> stream" where
  "consume_var_loop b val shift s =
     (if (b AND more') \<noteq> 0 \<and> shift < 32
      then (let (b', s') = consume8 s;
                val' = val OR push_bit shift (b' AND NOT more')
            in consume_var_loop b' val' (shift + 7) s')
      else (val, s))"
  by pat_completeness auto
termination
  by (relation "measure (\<lambda>(b, val, shift, s). 32 - shift)") auto

declare consume_var_loop.simps [simp del]

definition consume_var :: "stream \<Rightarrow> int \<times> stream" where
  "consume_var s =
     (let (b, s1) = consume8 s
      in if (b AND more') = 0 then (b, s1)
         else consume_var_loop b (b AND NOT more') 7 s1)"

subsection \<open>The varint format in the specification's words\<close>

text \<open>
  Each byte contributes its low 7 bits at the running bit offset; accumulation stops after
  the byte whose continuation bit \<open>0x80\<close> is clear, or once the running shift has reached 32.
  \<open>spec_varint shift bs\<close> gives the value and the number of bytes used.
\<close>

fun spec_varint :: "nat \<Rightarrow> int list \<Rightarrow> int \<times> nat" where
  "spec_varint shift [] = (0, 0)"
| "spec_varint shift (b # bs) =
     (let grp = push_bit shift (b AND 127)
      in if b AND 128 = 0 \<or> 32 \<le> shift + 7 then (grp, 1)
         else (let (v, n) = spec_varint (shift + 7) bs in (grp OR v, Suc n)))"

text \<open>
  What the decoder sees from a cursor: the bytes that remain, followed by the 0 that
  \<^verbatim>\<open>consume8\<close> returns on an exhausted buffer.
\<close>

definition pending :: "stream \<Rightarrow> int list" where
  "pending s = map uint (drop (pos s) (buf s)) @ [0]"

text \<open>The standard continuation-bit base-128 encoding of an unsigned integer.\<close>

function encode_varint :: "nat \<Rightarrow> byte list" where
  "encode_varint v =
     (if v < 128 then [of_nat v] else of_nat (v mod 128 + 128) # encode_varint (v div 128))"
  by pat_completeness auto
termination
  by (relation "measure id") auto

declare encode_varint.simps [simp del]


text \<open>The cursor moved forward by \<open>n\<close> bytes, or to the end of the buffer when fewer remain.\<close>

definition advance :: "nat \<Rightarrow> stream \<Rightarrow> stream" where
  "advance n s = s\<lparr>pos := pos s + min n (length (buf s) - pos s)\<rparr>"

section \<open>Text\<close>

text \<open>
  \<^verbatim>\<open>bytes.decode()\<close> is strict UTF-8: it returns the code points, and raises
  \<^verbatim>\<open>UnicodeDecodeError\<close> (here \<open>None\<close>) on a byte sequence that is not well-formed UTF-8
  (a stray or missing continuation byte, an overlong form, a surrogate, a code point above
  \<open>0x10FFFF\<close>).
\<close>

definition utf8_cont :: "nat \<Rightarrow> bool" where
  "utf8_cont b = (128 \<le> b \<and> b < 192)"

fun utf8_points :: "nat list \<Rightarrow> pystr option" where
  "utf8_points [] = Some []"
| "utf8_points (b0 # bs) =
     (if b0 < 128 then map_option (Cons b0) (utf8_points bs)
      else if 194 \<le> b0 \<and> b0 < 224 then
        (case bs of
           b1 # r \<Rightarrow>
             if utf8_cont b1
             then map_option (Cons ((b0 - 192) * 64 + (b1 - 128))) (utf8_points r)
             else None
         | _ \<Rightarrow> None)
      else if 224 \<le> b0 \<and> b0 < 240 then
        (case bs of
           b1 # b2 # r \<Rightarrow>
             if utf8_cont b1 \<and> utf8_cont b2 \<and> (b0 \<noteq> 224 \<or> 160 \<le> b1) \<and> (b0 \<noteq> 237 \<or> b1 < 160)
             then map_option (Cons ((b0 - 224) * 4096 + (b1 - 128) * 64 + (b2 - 128)))
                    (utf8_points r)
             else None
         | _ \<Rightarrow> None)
      else if 240 \<le> b0 \<and> b0 < 245 then
        (case bs of
           b1 # b2 # b3 # r \<Rightarrow>
             if utf8_cont b1 \<and> utf8_cont b2 \<and> utf8_cont b3 \<and>
                (b0 \<noteq> 240 \<or> 144 \<le> b1) \<and> (b0 \<noteq> 244 \<or> b1 < 144)
             then map_option
                    (Cons ((b0 - 240) * 262144 + (b1 - 128) * 4096 + (b2 - 128) * 64 + (b3 - 128)))
                    (utf8_points r)
             else None
         | _ \<Rightarrow> None)
      else None)"

definition decode :: "byte list \<Rightarrow> pystr option" where
  "decode bs = utf8_points (map unat bs)"

text \<open>A string literal of the source as a \<^verbatim>\<open>str\<close>.\<close>

definition str :: "string \<Rightarrow> pystr" where
  "str cs = map of_char cs"

text \<open>
  \<^verbatim>\<open>text.split(sep)\<close> with a one-character separator: the pieces between the separators,
  one more piece than there are separators, empty pieces included.
\<close>

fun split :: "'a \<Rightarrow> 'a list \<Rightarrow> 'a list list" where
  "split sep [] = [[]]"
| "split sep (c # cs) =
     (let r = split sep cs
      in if c = sep then [] # r else (c # hd r) # tl r)"

text \<open>
  \<^verbatim>\<open>xs[i]\<close> on a list: a negative index counts from the end, an index outside the list raises
  \<^verbatim>\<open>IndexError\<close>.
\<close>

definition getitem :: "'a list \<Rightarrow> int \<Rightarrow> py_error + 'a" where
  "getitem xs i =
     (if 0 \<le> i \<and> i < int (length xs) then Inr (xs ! nat i)
      else if i < 0 \<and> - int (length xs) \<le> i then Inr (xs ! nat (int (length xs) + i))
      else Inl IndexError)"

section \<open>Records of the index\<close>

text \<open>
  The enumerations. \<^verbatim>\<open>SymbolKind(n)\<close> and \<^verbatim>\<open>SymbolLanguage(n)\<close> return the member with value
  \<open>n\<close> and raise \<^verbatim>\<open>ValueError\<close> when there is none.
\<close>

datatype symbol_kind =
    File | Module | Namespace | Package | Class | Method | Property | Field | Constructor
  | Enum | Interface | Function | Variable | Constant | String | Number | Boolean | Array
  | Object | Key | Null | EnumMember | Struct | Event | Operator | TypeParameter

definition SymbolKind_members :: "(int \<times> symbol_kind) list" where
  "SymbolKind_members =
     [(1, File), (2, Module), (3, Namespace), (4, Package), (5, Class), (6, Method),
      (7, Property), (8, Field), (9, Constructor), (10, Enum), (11, Interface),
      (12, Function), (13, Variable), (14, Constant), (15, String), (16, Number),
      (17, Boolean), (18, Array), (19, Object), (20, Key), (21, Null), (22, EnumMember),
      (23, Struct), (24, Event), (25, Operator), (26, TypeParameter)]"

definition SymbolKind :: "int \<Rightarrow> py_error + symbol_kind" where
  "SymbolKind n =
     (case map_of SymbolKind_members n of
        None \<Rightarrow> Inl (NotAValidEnum ''SymbolKind'' n)
      | Some k \<Rightarrow> Inr k)"

datatype symbol_language = C | Cpp | ObjC | Swift

definition SymbolLanguage_members :: "(int \<times> symbol_language) list" where
  "SymbolLanguage_members = [(0, C), (1, Cpp), (2, ObjC), (3, Swift)]"

definition SymbolLanguage :: "int \<Rightarrow> py_error + symbol_language" where
  "SymbolLanguage n =
     (case map_of SymbolLanguage_members n of
        None \<Rightarrow> Inl (NotAValidEnum ''SymbolLanguage'' n)
      | Some l \<Rightarrow> Inr l)"

text \<open>
  The dictionaries the decoders build have fixed keys; each is a record, its fields named
  after the keys (with a prefix where two dictionaries share a key).
\<close>

record position =
  line :: int
  column :: int

record location =
  file_uri :: pystr
  loc_start :: position
  loc_end :: position

record include_header =
  header :: pystr
  header_references :: int
  supported_directives :: int

record symbol =
  sym_id :: string
  sym_kind :: symbol_kind
  sym_lang :: symbol_language
  sym_name :: pystr
  sym_scope :: pystr
  sym_template_specialization_args :: pystr
  sym_definition :: location
  sym_canonical_declaration :: location
  sym_references :: int
  sym_flags :: int
  sym_signature :: pystr
  sym_completion_snippet_suffix :: pystr
  sym_documentation :: pystr
  sym_return_type :: pystr
  sym_type :: pystr
  sym_include_headers :: "include_header list"

record reference =
  ref_kind :: int
  ref_location :: location
  ref_container :: string

record ref =
  symbol_id :: string
  ref_references :: "reference list"

record relation =
  rel_subject :: int
  rel_predicate :: int
  rel_object :: int

record src =
  src_flags :: int
  src_uri :: pystr
  src_digest :: "byte list"
  src_direct_includes :: "pystr list"

record command =
  cmd_directory :: pystr
  cmd_commands :: "pystr list"

text \<open>
  The attributes of the \<^verbatim>\<open>ClangIndex\<close> object that the decoders set; an attribute that has
  not been set yet is \<open>None\<close>. Only \<^verbatim>\<open>string_table\<close> is ever read back.
\<close>

record session =
  string_table :: "pystr list option"
  version :: "int option"
  symbols :: "symbol list option"
  refs :: "ref list option"
  relations :: "relation list option"
  sources :: "src list option"
  commands :: "command list option"

definition new_session :: session where
  "new_session = \<lparr>string_table = None, version = None, symbols = None, refs = None,
     relations = None, sources = None, commands = None\<rparr>"

text \<open>What \<^verbatim>\<open>parse_data\<close> returns for a chunk, by the chunk's tag.\<close>

datatype chunk_value =
    Version int
  | StringTable "pystr list"
  | Symbols "symbol list"
  | Refs "ref list"
  | Relations "relation list"
  | Sources "src list"
  | Commands "command list"

section \<open>Reading from a cursor\<close>

text \<open>
  A step of a decoder takes the cursor and either raises or returns a value and the cursor
  after it. \<open>bind_r\<close> is the sequencing of two statements, the second using the value of the
  first.
\<close>

type_synonym 'a reader = "stream \<Rightarrow> py_error + ('a \<times> stream)"

definition return_r :: "'a \<Rightarrow> 'a reader" where
  "return_r x s = Inr (x, s)"

definition lift_r :: "(stream \<Rightarrow> 'a \<times> stream) \<Rightarrow> 'a reader" where
  "lift_r f s = Inr (f s)"

definition of_result :: "py_error + 'a \<Rightarrow> 'a reader" where
  "of_result r s = (case r of Inl e \<Rightarrow> Inl e | Inr x \<Rightarrow> Inr (x, s))"

definition bind_r :: "'a reader \<Rightarrow> ('a \<Rightarrow> 'b reader) \<Rightarrow> 'b reader" where
  "bind_r m f s = (case m s of Inl e \<Rightarrow> Inl e | Inr (x, s') \<Rightarrow> f x s')"

text \<open>\<^verbatim>\<open>self.string_table\<close>: an \<^verbatim>\<open>AttributeError\<close> when no \<^verbatim>\<open>stri\<close> chunk has set it.\<close>

definition get_string_table :: "session \<Rightarrow> py_error + pystr list" where
  "get_string_table st =
     (case string_table st of None \<Rightarrow> Inl AttributeError | Some tbl \<Rightarrow> Inr tbl)"

definition consume_string :: "session \<Rightarrow> pystr reader" where
  "consume_string st =
     bind_r (lift_r consume_var) (\<lambda>idx.
     bind_r (of_result (get_string_table st)) (\<lambda>tbl.
     of_result (getitem tbl idx)))"

definition read_location :: "session \<Rightarrow> location reader" where
  "read_location st =
     bind_r (consume_string st) (\<lambda>uri.
     bind_r (lift_r consume_var) (\<lambda>start_line.
     bind_r (lift_r consume_var) (\<lambda>start_column.
     bind_r (lift_r consume_var) (\<lambda>end_line.
     bind_r (lift_r consume_var) (\<lambda>end_column.
     return_r \<lparr>file_uri = uri,
               loc_start = \<lparr>line = start_line, column = start_column\<rparr>,
               loc_end = \<lparr>line = end_line, column = end_column\<rparr>\<rparr>)))))"

section \<open>Record decoders\<close>

text \<open>
  The body of each decoder's \<^verbatim>\<open>while\<close> loop reads one record. A \<^verbatim>\<open>for _ in range(n)\<close> loop
  inside it is a recursion on \<open>n\<close> that appends to the list built so far.
\<close>

fun read_include_headers ::
  "session \<Rightarrow> nat \<Rightarrow> include_header list \<Rightarrow> include_header list reader" where
  "read_include_headers st 0 include_headers = return_r include_headers"
| "read_include_headers st (Suc n) include_headers =
     bind_r (consume_string st) (\<lambda>include_header.
     bind_r (lift_r consume_var) (\<lambda>refs_with_directives.
     read_include_headers st n
       (include_headers @
          [\<lparr>header = include_header,
            header_references = drop_bit 2 refs_with_directives,
            supported_directives = refs_with_directives AND 3\<rparr>])))"

definition read_symbol :: "session \<Rightarrow> symbol reader" where
  "read_symbol st =
     bind_r (lift_r consume_id) (\<lambda>id.
     bind_r (lift_r consume8) (\<lambda>k.
     bind_r (of_result (SymbolKind k)) (\<lambda>kind.
     bind_r (lift_r consume8) (\<lambda>l.
     bind_r (of_result (SymbolLanguage l)) (\<lambda>lang.
     bind_r (consume_string st) (\<lambda>name.
     bind_r (consume_string st) (\<lambda>scope.
     bind_r (consume_string st) (\<lambda>template_specialization_args.
     bind_r (read_location st) (\<lambda>definition.
     bind_r (read_location st) (\<lambda>canonical_declaration.
     bind_r (lift_r consume_var) (\<lambda>references.
     bind_r (lift_r consume8) (\<lambda>flags.
     bind_r (consume_string st) (\<lambda>signature.
     bind_r (consume_string st) (\<lambda>completion_snippet_suffix.
     bind_r (consume_string st) (\<lambda>documentation.
     bind_r (consume_string st) (\<lambda>return_type.
     bind_r (consume_string st) (\<lambda>sym_type'.
     bind_r (lift_r consume_var) (\<lambda>include_headers_size.
     bind_r (read_include_headers st (nat include_headers_size) []) (\<lambda>include_headers.
     return_r
       \<lparr>sym_id = id, sym_kind = kind, sym_lang = lang, sym_name = name, sym_scope = scope,
        sym_template_specialization_args = template_specialization_args,
        sym_definition = definition, sym_canonical_declaration = canonical_declaration,
        sym_references = references, sym_flags = flags, sym_signature = signature,
        sym_completion_snippet_suffix = completion_snippet_suffix,
        sym_documentation = documentation, sym_return_type = return_type,
        sym_type = sym_type', sym_include_headers = include_headers\<rparr>)))))))))))))))))))"

fun read_references :: "session \<Rightarrow> nat \<Rightarrow> reference list \<Rightarrow> reference list reader" where
  "read_references st 0 references = return_r references"
| "read_references st (Suc n) references =
     bind_r (lift_r consume8) (\<lambda>kind.
     bind_r (read_location st) (\<lambda>location.
     bind_r (lift_r consume_id) (\<lambda>container.
     read_references st n
       (references @ [\<lparr>ref_kind = kind, ref_location = location, ref_container = container\<rparr>]))))"

definition read_ref :: "session \<Rightarrow> ref reader" where
  "read_ref st =
     bind_r (lift_r consume_id) (\<lambda>symbol_id'.
     bind_r (lift_r consume_var) (\<lambda>num_refs.
     bind_r (read_references st (nat num_refs) []) (\<lambda>references.
     return_r \<lparr>symbol_id = symbol_id', ref_references = references\<rparr>)))"

definition read_relation :: "relation reader" where
  "read_relation =
     bind_r (lift_r consume8) (\<lambda>subject.
     bind_r (lift_r consume8) (\<lambda>predicate.
     bind_r (lift_r consume8) (\<lambda>object.
     return_r \<lparr>rel_subject = subject, rel_predicate = predicate, rel_object = object\<rparr>)))"

text \<open>
  The loops over \<^verbatim>\<open>direct_include_size\<close> in \<^verbatim>\<open>parse_srcs\<close> and over \<^verbatim>\<open>num_commands\<close> in
  \<^verbatim>\<open>parse_cmdl\<close> have the same body: look a string up and append it.
\<close>

fun read_strings :: "session \<Rightarrow> nat \<Rightarrow> pystr list \<Rightarrow> pystr list reader" where
  "read_strings st 0 acc = return_r acc"
| "read_strings st (Suc n) acc =
     bind_r (consume_string st) (\<lambda>x. read_strings st n (acc @ [x]))"

definition read_src :: "session \<Rightarrow> src reader" where
  "read_src st =
     bind_r (lift_r (read 1)) (\<lambda>flag_bytes.
     bind_r (consume_string st) (\<lambda>uri.
     bind_r (lift_r (read 8)) (\<lambda>digest.
     bind_r (lift_r consume_var) (\<lambda>direct_include_size.
     bind_r (read_strings st (nat direct_include_size) []) (\<lambda>direct_includes.
     return_r \<lparr>src_flags = from_bytes_little flag_bytes, src_uri = uri, src_digest = digest,
               src_direct_includes = direct_includes\<rparr>)))))"

definition read_command :: "session \<Rightarrow> command reader" where
  "read_command st =
     bind_r (consume_string st) (\<lambda>directory.
     bind_r (lift_r consume_var) (\<lambda>num_commands.
     bind_r (read_strings st (nat num_commands) []) (\<lambda>cmds.
     return_r \<lparr>cmd_directory = directory, cmd_commands = cmds\<rparr>)))"

section \<open>Properties of the varint decoder\<close>

text \<open>
  The decoder is characterised first, since the termination of the decoders' loops rests
  on how far a varint read moves the cursor.
\<close>

lemma more_eq: "more' = 128"
  by (simp add: more'_def)

lemma and_127: "(b::int) AND 127 = b mod 128"
proof -
  have "b AND mask 7 = b mod 2 ^ 7"
    by (simp only: take_bit_eq_mask [symmetric] take_bit_eq_mod)
  then show ?thesis by (simp add: mask_eq_exp_minus_1)
qed

lemma and_128: "((b::int) AND 128 = 0) = even (b div 128)"
proof -
  have "(b AND 2 ^ 7 = 0) = (\<not> bit b 7)"
    by (rule and_exp_eq_0_iff_not_bit)
  then show ?thesis by (simp add: bit_iff_odd)
qed

lemma and_not_bit:
  fixes b :: int
  assumes "take_bit (Suc k) b = b"
  shows "b AND NOT (push_bit k 1) = b AND mask k"
proof (rule bit_eqI)
  fix n
  have "bit b n \<Longrightarrow> n < Suc k"
    using assms by (metis bit_take_bit_iff)
  then show "bit (b AND NOT (push_bit k 1)) n = bit (b AND mask k) n"
    by (auto simp add: bit_simps)
qed

lemma and_not_128: 
  assumes "0 \<le> b" "b < 256"
  shows "(b::int) AND NOT 128 = b mod 128"
proof -
  have "take_bit (Suc 7) b = b"
    using assms by (simp add: take_bit_int_eq_self)
  then have "b AND NOT (push_bit 7 1) = b AND mask 7"
    by (rule and_not_bit)
  then show ?thesis by (simp add: mask_eq_exp_minus_1 and_127)
qed

lemma consume8_more: "pos s < length (buf s) \<Longrightarrow>
   consume8 s = (uint (buf s ! pos s), s\<lparr>pos := Suc (pos s)\<rparr>)"
  by (simp add: consume8_def read_def Let_def take_Suc_conv_app_nth drop_Suc hd_drop_conv_nth take_Suc)

lemma consume8_eof: "length (buf s) \<le> pos s \<Longrightarrow> consume8 s = (0, s)"
  by (simp add: consume8_def read_def Let_def)

lemma pending_more: "pos s < length (buf s) \<Longrightarrow>
   pending s = uint (buf s ! pos s) # pending (s\<lparr>pos := Suc (pos s)\<rparr>)"
  by (simp add: pending_def Cons_nth_drop_Suc [symmetric])

lemma pending_eof: "length (buf s) \<le> pos s \<Longrightarrow> pending s = [0]"
  by (simp add: pending_def)

lemma uint_byte_and_not_more: "uint (x::byte) AND NOT more' = uint x AND 127"
proof -
  have "uint x < 256" using uint_bounded [of x] by simp
  then have "uint x AND NOT 128 = uint x mod 128"
    by (intro and_not_128) simp_all
  then show ?thesis by (simp only: more_eq and_127)
qed

lemma consume_var_loop_spec:
  "b AND more' \<noteq> 0 \<Longrightarrow> shift < 32 \<Longrightarrow>
   consume_var_loop b val shift s =
     (val OR fst (spec_varint shift (pending s)),
      advance (snd (spec_varint shift (pending s))) s)"
proof (induction b val shift s rule: consume_var_loop.induct)
  case (1 b val shift s)
  show ?case
  proof (cases "pos s < length (buf s)")
    case False
    then have e: "consume8 s = (0, s)" and p: "pending s = [0]"
      by (simp_all add: consume8_eof pending_eof)
    have "consume_var_loop b val shift s = consume_var_loop 0 val (shift + 7) s"
      using "1.prems" by (subst consume_var_loop.simps) (simp add: e)
    also have "\<dots> = (val, s)"
      by (subst consume_var_loop.simps) simp
    finally show ?thesis using False by (simp add: p advance_def)
  next
    case True
    define b' where "b' = uint (buf s ! pos s)"
    define s' where "s' = s\<lparr>pos := Suc (pos s)\<rparr>"
    define grp where "grp = push_bit shift (b' AND 127)"
    define val' where "val' = val OR grp"
    have e: "consume8 s = (b', s')" and p: "pending s = b' # pending s'"
      using True by (simp_all add: consume8_more pending_more b'_def s'_def)
    have g: "push_bit shift (b' AND NOT more') = grp"
      by (simp only: grp_def b'_def uint_byte_and_not_more)
    have step: "consume_var_loop b val shift s = consume_var_loop b' val' (shift + 7) s'"
      using "1.prems"
      by (subst consume_var_loop.simps) (simp only: e g val'_def Let_def split_conv if_True simp_thms)
    have adv: "advance n s' = advance (Suc n) s" for n
      using True by (simp add: advance_def s'_def)
    show ?thesis
    proof (cases "b' AND more' \<noteq> 0 \<and> shift + 7 < 32")
      case True
      then have sp: "spec_varint shift (b' # pending s') =
          (grp OR fst (spec_varint (shift + 7) (pending s')),
           Suc (snd (spec_varint (shift + 7) (pending s'))))"
        by (simp add: grp_def more_eq split_beta)
      have "consume_var_loop b' val' (shift + 7) s' =
          (val' OR fst (spec_varint (shift + 7) (pending s')),
           advance (snd (spec_varint (shift + 7) (pending s'))) s')"
        using "1.IH" [of "(b', s')" b' s' val'] "1.prems" e True
        by (simp only: val'_def g simp_thms)
      then show ?thesis
        by (simp add: step p sp adv val'_def ac_simps del: spec_varint.simps)
    next
      case False
      then have sp: "spec_varint shift (b' # pending s') = (grp, 1)"
        by (auto simp add: grp_def more_eq)
      have "consume_var_loop b' val' (shift + 7) s' = (val', s')"
        using False by (subst consume_var_loop.simps) auto
      moreover have "advance 1 s = s'"
        using True by (simp add: advance_def s'_def)
      ultimately show ?thesis
        by (simp add: step p sp val'_def del: spec_varint.simps)
    qed
  qed
qed

lemma low_byte_self:
  assumes "0 \<le> b" "b < 256" "b AND 128 = 0"
  shows "(b::int) AND 127 = b"
proof -
  have "even (b div 128)" using assms(3) by (simp add: and_128)
  moreover have "b div 128 = 0 \<or> b div 128 = 1" using assms(1,2) by presburger
  ultimately have "b div 128 = 0" by auto
  then have "b mod 128 = b" using assms(1) by presburger
  then show ?thesis by (simp add: and_127)
qed

lemma consume_var_char:
  "consume_var s =
     (fst (spec_varint 0 (pending s)), advance (snd (spec_varint 0 (pending s))) s)"
proof (cases "pos s < length (buf s)")
  case False
  then have e: "consume8 s = (0, s)" and p: "pending s = [0]"
    by (simp_all add: consume8_eof pending_eof)
  show ?thesis using False by (simp add: consume_var_def e p advance_def)
next
  case True
  define b where "b = uint (buf s ! pos s)"
  define s1 where "s1 = s\<lparr>pos := Suc (pos s)\<rparr>"
  have e: "consume8 s = (b, s1)" and p: "pending s = b # pending s1"
    using True by (simp_all add: consume8_more pending_more b_def s1_def)
  have rng: "0 \<le> b" "b < 256"
    using uint_bounded [of "buf s ! pos s"] by (simp_all add: b_def)
  have adv: "advance n s1 = advance (Suc n) s" for n
    using True by (simp add: advance_def s1_def)
  show ?thesis
  proof (cases "b AND more' = 0")
    case True
    then have "b AND 127 = b" using rng by (simp add: low_byte_self more_eq)
    then show ?thesis
      using True adv [of 0] by (simp add: consume_var_def e p more_eq advance_def)
  next
    case False
    have g: "b AND NOT more' = b AND 127"
      by (simp only: b_def uint_byte_and_not_more)
    have "consume_var s = consume_var_loop b (b AND 127) 7 s1"
      using False by (simp only: consume_var_def e g Let_def split_conv if_False)
    also have "\<dots> = ((b AND 127) OR fst (spec_varint 7 (pending s1)),
        advance (snd (spec_varint 7 (pending s1))) s1)"
      using False by (intro consume_var_loop_spec) simp_all
    finally show ?thesis
      using False by (simp add: p more_eq split_beta adv)
  qed
qed

lemma spec_varint_bounds:
  "shift mod 7 = 0 \<Longrightarrow> shift \<le> 28 \<Longrightarrow> \<forall>b \<in> set bs. 0 \<le> b \<Longrightarrow>
   0 \<le> fst (spec_varint shift bs) \<and> fst (spec_varint shift bs) < 2 ^ 35 \<and>
   snd (spec_varint shift bs) + shift div 7 \<le> 5"
proof (induction bs arbitrary: shift)
  case Nil
  then show ?case by simp
next
  case (Cons b bs)
  define grp where "grp = push_bit shift (b AND 127)"
  have b0: "0 \<le> b" using Cons.prems by simp
  have "b AND 127 < 2 ^ 7" by (simp add: and_127)
  then have "grp < 2 ^ (shift + 7)"
    by (simp add: grp_def push_bit_eq_mult power_add)
  moreover have "(2::int) ^ (shift + 7) \<le> 2 ^ 35"
    using Cons.prems(2) by (intro power_increasing) simp_all
  ultimately have gu: "grp < 2 ^ 35" by linarith
  have gl: "0 \<le> grp" using b0 by (simp add: grp_def)
  show ?case
  proof (cases "b AND 128 = 0 \<or> 32 \<le> shift + 7")
    case True
    then have "spec_varint shift (b # bs) = (grp, 1)" by (auto simp add: grp_def)
    moreover have "shift div 7 \<le> 4" using Cons.prems(2) by presburger
    ultimately show ?thesis using gl gu by simp
  next
    case False
    then have sp: "spec_varint shift (b # bs) =
        (grp OR fst (spec_varint (shift + 7) bs), Suc (snd (spec_varint (shift + 7) bs)))"
      by (simp add: grp_def split_beta)
    have "(shift + 7) mod 7 = 0" "shift + 7 \<le> 28"
      using False Cons.prems(1) by presburger+
    then have ih: "0 \<le> fst (spec_varint (shift + 7) bs)"
        "fst (spec_varint (shift + 7) bs) < 2 ^ 35"
        "snd (spec_varint (shift + 7) bs) + (shift + 7) div 7 \<le> 5"
      using Cons.IH [of "shift + 7"] Cons.prems(3) by simp_all
    have "grp OR fst (spec_varint (shift + 7) bs) < 2 ^ 35"
      using gl gu ih(2) by (intro OR_upper) simp_all
    moreover have "0 \<le> grp OR fst (spec_varint (shift + 7) bs)"
      using gl ih(1) by simp
    ultimately show ?thesis using ih(3) by (simp add: sp del: spec_varint.simps)
  qed
qed

lemma pending_nonneg: "\<forall>b \<in> set (pending s). 0 \<le> b"
  by (simp add: pending_def)

lemma split_low7: "push_bit shift ((v::int) mod 128) OR push_bit (shift + 7) (v div 128) = push_bit shift v"
proof -
  have "take_bit 7 v OR push_bit 7 (drop_bit 7 v) = v"
  proof (rule bit_eqI)
    fix n
    show "bit (take_bit 7 v OR push_bit 7 (drop_bit 7 v)) n = bit v n"
      by (cases "n < 7") (simp_all add: bit_simps)
  qed
  then have "push_bit shift (take_bit 7 v OR push_bit 7 (drop_bit 7 v)) = push_bit shift v"
    by simp
  then have "push_bit shift (take_bit 7 v) OR push_bit (shift + 7) (drop_bit 7 v) =
      push_bit shift v"
    by (simp only: push_bit_or push_bit_push_bit)
  then show ?thesis
    by (simp only: take_bit_eq_mod drop_bit_eq_div) simp
qed

lemma uint_of_nat_byte: "n < 256 \<Longrightarrow> uint (of_nat n :: byte) = int n"
  by (simp add: uint_nat unat_of_nat)

lemma spec_varint_stop:
  "b AND 128 = 0 \<or> 32 \<le> shift + 7 \<Longrightarrow>
   spec_varint shift (b # bs) = (push_bit shift (b AND 127), 1)"
  by auto

lemma spec_varint_cont:
  "b AND 128 \<noteq> 0 \<Longrightarrow> shift + 7 < 32 \<Longrightarrow>
   spec_varint shift (b # bs) =
     (push_bit shift (b AND 127) OR fst (spec_varint (shift + 7) bs),
      Suc (snd (spec_varint (shift + 7) bs)))"
  by (simp add: split_beta)

lemma spec_varint_encode:
  "v < 2 ^ (35 - shift) \<Longrightarrow> shift mod 7 = 0 \<Longrightarrow> shift \<le> 28 \<Longrightarrow>
   spec_varint shift (map uint (encode_varint v) @ rest) =
     (push_bit shift (int v), length (encode_varint v))"
proof (induction v arbitrary: shift rule: encode_varint.induct)
  case (1 v)
  show ?case
  proof (cases "v < 128")
    case True
    then have enc: "encode_varint v = [of_nat v]"
      by (subst encode_varint.simps) simp
    have u: "uint (of_nat v :: byte) = int v"
      using True by (simp add: uint_of_nat_byte)
    have "int v AND 128 = 0" using True by (simp add: and_128)
    moreover have "int v AND 127 = int v" using True by (simp add: and_127)
    ultimately show ?thesis by (simp add: enc u)
  next
    case False
    define b :: int where "b = int (v mod 128 + 128)"
    have enc: "encode_varint v = of_nat (v mod 128 + 128) # encode_varint (v div 128)"
      using False by (subst encode_varint.simps) simp
    have u: "uint (of_nat (v mod 128 + 128) :: byte) = b"
      unfolding b_def by (rule uint_of_nat_byte) simp
    have "0 \<le> int (v mod 128)" "int (v mod 128) < 128" by simp_all
    then have "(int (v mod 128) + 128) div 128 = 1" by linarith
    then have c: "b AND 128 \<noteq> 0" by (simp add: and_128 b_def)
    have l: "b AND 127 = int v mod 128"
      by (simp add: and_127 b_def zmod_int)
    have "shift < 28"
    proof (rule ccontr)
      assume "\<not> shift < 28"
      then have "shift = 28" using "1.prems"(3) by simp
      then show False using "1.prems"(1) False by simp
    qed
    then have s7: "shift + 7 \<le> 28" "(shift + 7) mod 7 = 0" "shift + 7 < 32"
      using "1.prems"(2) by presburger+
    have "v div 128 < 2 ^ (35 - (shift + 7))"
    proof -
      have k: "35 - shift = 7 + (28 - shift)" using s7(1) by simp
      have "(2::nat) ^ (35 - shift) = 2 ^ (28 - shift) * 128"
        by (simp only: k power_add) simp
      then have "v < 2 ^ (28 - shift) * 128" using "1.prems"(1) by simp
      then have "v div 128 < 2 ^ (28 - shift)" by (rule less_mult_imp_div_less)
      then show ?thesis by simp
    qed
    then have ih: "spec_varint (shift + 7) (map uint (encode_varint (v div 128)) @ rest) =
        (push_bit (shift + 7) (int (v div 128)), length (encode_varint (v div 128)))"
      using "1.IH" [of "shift + 7"] False s7 by simp
    have sl: "push_bit shift (int v mod 128) OR push_bit (shift + 7) (int (v div 128)) =
        push_bit shift (int v)"
      by (simp only: zdiv_int) (simp add: split_low7)
    have "map uint (encode_varint v) @ rest =
        b # (map uint (encode_varint (v div 128)) @ rest)"
      by (simp only: enc list.map append_Cons u)
    then have "spec_varint shift (map uint (encode_varint v) @ rest) =
        (push_bit shift (b AND 127) OR push_bit (shift + 7) (int (v div 128)),
         Suc (length (encode_varint (v div 128))))"
      using spec_varint_cont [OF c s7(3), of "map uint (encode_varint (v div 128)) @ rest"]
      by (simp only: ih fst_conv snd_conv)
    moreover have "length (encode_varint v) = Suc (length (encode_varint (v div 128)))"
      by (simp only: enc length_Cons)
    ultimately show ?thesis
      by (simp only: l sl)
  qed
qed

lemma byte_cont: "((x::byte) AND 128 = 0) = (uint x AND 128 = 0)"
proof -
  have "uint (x AND 128) = uint x AND 128" by (simp add: uint_and)
  then show ?thesis by (metis uint_0_iff)
qed

lemma pending_at:
  "pending \<lparr>buf = pre @ bs @ post, pos = length pre\<rparr> = map uint bs @ pending \<lparr>buf = post, pos = 0\<rparr>"
  by (simp add: pending_def)

lemma advance_at:
  "n \<le> length bs \<Longrightarrow>
   advance n \<lparr>buf = pre @ bs @ post, pos = length pre\<rparr> =
     \<lparr>buf = pre @ bs @ post, pos = length pre + n\<rparr>"
  by (simp add: advance_def)


section \<open>How a decoder moves the cursor\<close>

text \<open>
  Every step keeps the buffer, never moves the cursor back and never moves it past the end
  of the buffer; the first step of every record moves it forward when bytes remain. So each
  \<^verbatim>\<open>while stream.tell() < len(data)\<close> loop terminates.
\<close>

definition adv :: "stream \<Rightarrow> stream \<Rightarrow> bool" where
  "adv s s' = (buf s' = buf s \<and> pos s \<le> pos s' \<and> pos s' \<le> max (pos s) (length (buf s)))"

definition advances :: "'a reader \<Rightarrow> bool" where
  "advances m = (\<forall>s x s'. m s = Inr (x, s') \<longrightarrow> adv s s')"

definition progresses :: "'a reader \<Rightarrow> bool" where
  "progresses m =
     (\<forall>s x s'. m s = Inr (x, s') \<longrightarrow> pos s < length (buf s) \<longrightarrow> pos s < pos s')"

lemma adv_refl: "adv s s"
  by (simp add: adv_def)

lemma adv_trans: "adv s s' \<Longrightarrow> adv s' s'' \<Longrightarrow> adv s s''"
  by (auto simp add: adv_def)

lemma advances_return: "advances (return_r x)"
  by (simp add: advances_def return_r_def adv_refl)

lemma advances_of_result: "advances (of_result r)"
  by (auto simp add: advances_def of_result_def adv_refl split: sum.splits)

lemma advances_bind:
  assumes "advances m" and "\<And>x. advances (f x)"
  shows "advances (bind_r m f)"
  unfolding advances_def
proof (intro allI impI)
  fix s y s''
  assume r: "bind_r m f s = Inr (y, s'')"
  then obtain x s' where m: "m s = Inr (x, s')" and f: "f x s' = Inr (y, s'')"
    by (auto simp add: bind_r_def split: sum.splits)
  from m assms(1) have "adv s s'" by (auto simp add: advances_def)
  moreover from f assms(2) have "adv s' s''" by (auto simp add: advances_def)
  ultimately show "adv s s''" by (rule adv_trans)
qed

lemma progresses_bind:
  assumes "progresses m" and "\<And>x. advances (f x)"
  shows "progresses (bind_r m f)"
  unfolding progresses_def
proof (intro allI impI)
  fix s y s''
  assume r: "bind_r m f s = Inr (y, s'')" and lt: "pos s < length (buf s)"
  then obtain x s' where m: "m s = Inr (x, s')" and f: "f x s' = Inr (y, s'')"
    by (auto simp add: bind_r_def split: sum.splits)
  from m lt assms(1) have "pos s < pos s'" by (auto simp add: progresses_def)
  moreover from f assms(2) have "adv s' s''" by (auto simp add: advances_def)
  ultimately show "pos s < pos s''" by (simp add: adv_def)
qed

lemma read_adv: "adv s (snd (read n s))"
  by (auto simp add: adv_def read_def Let_def)

lemma advances_lift:
  assumes "\<And>s. adv s (snd (f s))"
  shows "advances (lift_r f)"
  unfolding advances_def lift_r_def
proof (intro allI impI)
  fix s x s'
  assume "Inr (f s) = Inr (x, s')"
  then have "snd (f s) = s'" by simp
  then show "adv s s'" using assms [of s] by simp
qed

lemma advances_read: "advances (lift_r (read n))"
  by (rule advances_lift) (rule read_adv)

lemma progresses_read: "0 < n \<Longrightarrow> progresses (lift_r (read n))"
  by (auto simp add: progresses_def lift_r_def read_def Let_def)

lemma advances_consume_id: "advances (lift_r consume_id)"
  by (rule advances_lift) (simp add: consume_id_def split_beta read_adv)

lemma progresses_consume_id: "progresses (lift_r consume_id)"
  by (auto simp add: progresses_def lift_r_def consume_id_def read_def Let_def)

lemma advances_consume8: "advances (lift_r consume8)"
  by (rule advances_lift) (simp add: consume8_def split_beta read_adv)

lemma progresses_consume8: "progresses (lift_r consume8)"
  by (auto simp add: progresses_def lift_r_def consume8_def read_def Let_def)

lemma spec_varint_used: "0 < snd (spec_varint shift (b # bs))"
  by (simp add: split_beta Let_def)

lemma advances_consume_var: "advances (lift_r consume_var)"
  by (rule advances_lift) (simp add: consume_var_char advance_def adv_def)

lemma progresses_consume_var: "progresses (lift_r consume_var)"
proof -
  have "0 < snd (spec_varint 0 (pending s))" for s
    by (simp only: pending_def) (cases "map uint (drop (pos s) (buf s))"; simp only: append_Nil append_Cons spec_varint_used)
  then have "pos s < length (buf s) \<Longrightarrow> pos s < pos (snd (consume_var s))" for s
    by (simp add: consume_var_char advance_def)
  then show ?thesis
    by (auto simp add: progresses_def lift_r_def) (metis snd_conv)
qed

lemma advances_consume_string: "advances (consume_string st)"
  unfolding consume_string_def
  by (intro advances_bind advances_consume_var advances_of_result)

lemma progresses_consume_string: "progresses (consume_string st)"
  unfolding consume_string_def
  by (intro progresses_bind advances_bind progresses_consume_var advances_of_result)

lemma advances_read_location: "advances (read_location st)"
  unfolding read_location_def
  by (intro advances_bind advances_consume_var advances_consume_string advances_return)

lemma advances_read_include_headers: "advances (read_include_headers st n acc)"
  by (induction n arbitrary: acc)
     (auto intro!: advances_bind advances_return advances_consume_string advances_consume_var)

lemma advances_read_references: "advances (read_references st n acc)"
  by (induction n arbitrary: acc)
     (auto intro!: advances_bind advances_return advances_read_location advances_consume8
        advances_consume_id)

lemma advances_read_strings: "advances (read_strings st n acc)"
  by (induction n arbitrary: acc)
     (auto intro!: advances_bind advances_return advances_consume_string)

lemmas advances_intros =
  advances_bind advances_return advances_of_result advances_read advances_consume_id
  advances_consume8 advances_consume_var advances_consume_string advances_read_location
  advances_read_include_headers advances_read_references advances_read_strings

lemma advances_read_symbol: "advances (read_symbol st)"
  unfolding read_symbol_def by (intro advances_intros)

lemma progresses_read_symbol: "progresses (read_symbol st)"
  unfolding read_symbol_def by (intro progresses_bind progresses_consume_id advances_intros)

lemma advances_read_ref: "advances (read_ref st)"
  unfolding read_ref_def by (intro advances_intros)

lemma progresses_read_ref: "progresses (read_ref st)"
  unfolding read_ref_def by (intro progresses_bind progresses_consume_id advances_intros)

lemma advances_read_relation: "advances read_relation"
  unfolding read_relation_def by (intro advances_intros)

lemma progresses_read_relation: "progresses read_relation"
  unfolding read_relation_def by (intro progresses_bind progresses_consume8 advances_intros)

lemma advances_read_src: "advances (read_src st)"
  unfolding read_src_def by (intro advances_intros)

lemma progresses_read_src: "progresses (read_src st)"
  unfolding read_src_def by (intro progresses_bind progresses_read advances_intros) simp

lemma advances_read_command: "advances (read_command st)"
  unfolding read_command_def by (intro advances_intros)

lemma progresses_read_command: "progresses (read_command st)"
  unfolding read_command_def by (intro progresses_bind progresses_consume_string advances_intros)

lemma loop_measure:
  assumes "advances m" "progresses m" "m s = Inr (x, s')" "tell s < length (buf s)"
  shows "length (buf s') - pos s' < length (buf s) - pos s"
proof -
  have "adv s s'" using assms(1,3) by (auto simp add: advances_def)
  moreover have "pos s < pos s'" using assms(2,3,4) by (auto simp add: progresses_def tell_def)
  ultimately show ?thesis using assms(4) by (auto simp add: adv_def tell_def)
qed

section \<open>Chunk decoders and the dispatcher\<close>

text \<open>
  Each \<^verbatim>\<open>parse_*\<close> method wraps its payload in a \<^verbatim>\<open>BytesIO\<close>, runs
  \<^verbatim>\<open>while stream.tell() < len(data)\<close> appending one record per iteration, stores the list
  in an attribute of the object and returns it. The loop is a function of its own, which
  also returns the cursor it ends with; \<^verbatim>\<open>len(data)\<close> is the length of the cursor's buffer.
\<close>

function parse_symb_loop :: "session \<Rightarrow> symbol list \<Rightarrow> symbol list reader" where
  "parse_symb_loop st symbols' s =
     (if tell s < length (buf s)
      then (case read_symbol st s of
              Inl e \<Rightarrow> Inl e
            | Inr (symbol, s') \<Rightarrow> parse_symb_loop st (symbols' @ [symbol]) s')
      else Inr (symbols', s))"
  by pat_completeness auto
termination
  by (relation "measure (\<lambda>(st, acc, s). length (buf s) - pos s)")
     (auto intro: loop_measure [OF advances_read_symbol progresses_read_symbol])

definition parse_symb :: "session \<Rightarrow> byte list \<Rightarrow> py_error + (symbol list \<times> session)" where
  "parse_symb st data =
     (case parse_symb_loop st [] (BytesIO data) of
        Inl e \<Rightarrow> Inl e
      | Inr (symbols', s) \<Rightarrow> Inr (symbols', st\<lparr>symbols := Some symbols'\<rparr>))"

function parse_refs_loop :: "session \<Rightarrow> ref list \<Rightarrow> ref list reader" where
  "parse_refs_loop st refs' s =
     (if tell s < length (buf s)
      then (case read_ref st s of
              Inl e \<Rightarrow> Inl e
            | Inr (ref, s') \<Rightarrow> parse_refs_loop st (refs' @ [ref]) s')
      else Inr (refs', s))"
  by pat_completeness auto
termination
  by (relation "measure (\<lambda>(st, acc, s). length (buf s) - pos s)")
     (auto intro: loop_measure [OF advances_read_ref progresses_read_ref])

definition parse_refs :: "session \<Rightarrow> byte list \<Rightarrow> py_error + (ref list \<times> session)" where
  "parse_refs st data =
     (case parse_refs_loop st [] (BytesIO data) of
        Inl e \<Rightarrow> Inl e
      | Inr (refs', s) \<Rightarrow> Inr (refs', st\<lparr>refs := Some refs'\<rparr>))"

function parse_rela_loop :: "relation list \<Rightarrow> relation list reader" where
  "parse_rela_loop relations' s =
     (if tell s < length (buf s)
      then (case read_relation s of
              Inl e \<Rightarrow> Inl e
            | Inr (relation, s') \<Rightarrow> parse_rela_loop (relations' @ [relation]) s')
      else Inr (relations', s))"
  by pat_completeness auto
termination
  by (relation "measure (\<lambda>(acc, s). length (buf s) - pos s)")
     (auto intro: loop_measure [OF advances_read_relation progresses_read_relation])

definition parse_rela :: "session \<Rightarrow> byte list \<Rightarrow> py_error + (relation list \<times> session)" where
  "parse_rela st data =
     (case parse_rela_loop [] (BytesIO data) of
        Inl e \<Rightarrow> Inl e
      | Inr (relations', s) \<Rightarrow> Inr (relations', st\<lparr>relations := Some relations'\<rparr>))"

function parse_srcs_loop :: "session \<Rightarrow> src list \<Rightarrow> src list reader" where
  "parse_srcs_loop st sources' s =
     (if tell s < length (buf s)
      then (case read_src st s of
              Inl e \<Rightarrow> Inl e
            | Inr (src, s') \<Rightarrow> parse_srcs_loop st (sources' @ [src]) s')
      else Inr (sources', s))"
  by pat_completeness auto
termination
  by (relation "measure (\<lambda>(st, acc, s). length (buf s) - pos s)")
     (auto intro: loop_measure [OF advances_read_src progresses_read_src])

definition parse_srcs :: "session \<Rightarrow> byte list \<Rightarrow> py_error + (src list \<times> session)" where
  "parse_srcs st data =
     (case parse_srcs_loop st [] (BytesIO data) of
        Inl e \<Rightarrow> Inl e
      | Inr (sources', s) \<Rightarrow> Inr (sources', st\<lparr>sources := Some sources'\<rparr>))"

function parse_cmdl_loop :: "session \<Rightarrow> command list \<Rightarrow> command list reader" where
  "parse_cmdl_loop st commands' s =
     (if tell s < length (buf s)
      then (case read_command st s of
              Inl e \<Rightarrow> Inl e
            | Inr (command, s') \<Rightarrow> parse_cmdl_loop st (commands' @ [command]) s')
      else Inr (commands', s))"
  by pat_completeness auto
termination
  by (relation "measure (\<lambda>(st, acc, s). length (buf s) - pos s)")
     (auto intro: loop_measure [OF advances_read_command progresses_read_command])

definition parse_cmdl :: "session \<Rightarrow> byte list \<Rightarrow> py_error + (command list \<times> session)" where
  "parse_cmdl st data =
     (case parse_cmdl_loop st [] (BytesIO data) of
        Inl e \<Rightarrow> Inl e
      | Inr (commands', s) \<Rightarrow> Inr (commands', st\<lparr>commands := Some commands'\<rparr>))"

declare parse_symb_loop.simps [simp del] parse_refs_loop.simps [simp del]
  parse_rela_loop.simps [simp del] parse_srcs_loop.simps [simp del]
  parse_cmdl_loop.simps [simp del]

definition parse_meta :: "session \<Rightarrow> byte list \<Rightarrow> py_error + (int \<times> session)" where
  "parse_meta st data =
     (let version' = from_bytes_little data
      in Inr (version', st\<lparr>version := Some version'\<rparr>))"

text \<open>
  \<^verbatim>\<open>zlib.decompress(data, bufsize=n)\<close> is a function of another library. It is a parameter of
  the model: any function from the compressed bytes and the buffer size to the decompressed
  bytes, or to \<open>None\<close> where \<^verbatim>\<open>zlib.error\<close> is raised.
\<close>

type_synonym decompressor = "byte list \<Rightarrow> int \<Rightarrow> byte list option"

definition parse_stri ::
  "decompressor \<Rightarrow> session \<Rightarrow> byte list \<Rightarrow> py_error + (pystr list \<times> session)" where
  "parse_stri zlib_decompress st data =
     (let uncompressed_size = from_bytes_little (take 4 data);
          compressed_data = drop 4 data
      in case zlib_decompress compressed_data uncompressed_size of
           None \<Rightarrow> Inl ZlibError
         | Some uncompressed_data \<Rightarrow>
             (case decode uncompressed_data of
                None \<Rightarrow> Inl UnicodeDecodeError
              | Some text \<Rightarrow>
                  (let string_table' = split 0 text
                   in Inr (string_table', st\<lparr>string_table := Some string_table'\<rparr>))))"

text \<open>
  \<^verbatim>\<open>parse_data\<close> returns what the method for the tag returns; \<open>with_value\<close> injects it into
  the type of the values of \<^verbatim>\<open>cindex\<close>.
\<close>

definition with_value ::
  "('a \<Rightarrow> chunk_value) \<Rightarrow> py_error + ('a \<times> session) \<Rightarrow> py_error + (chunk_value \<times> session)" where
  "with_value tag r = (case r of Inl e \<Rightarrow> Inl e | Inr (x, st) \<Rightarrow> Inr (tag x, st))"

definition parse_data ::
  "decompressor \<Rightarrow> session \<Rightarrow> pystr \<Rightarrow> byte list \<Rightarrow> py_error + (chunk_value \<times> session)" where
  "parse_data zlib_decompress st id' data =
     (if id' = str ''meta'' then with_value Version (parse_meta st data)
      else if id' = str ''stri'' then with_value StringTable (parse_stri zlib_decompress st data)
      else if id' = str ''symb'' then with_value Symbols (parse_symb st data)
      else if id' = str ''refs'' then with_value Refs (parse_refs st data)
      else if id' = str ''rela'' then with_value Relations (parse_rela st data)
      else if id' = str ''srcs'' then with_value Sources (parse_srcs st data)
      else if id' = str ''cmdl'' then with_value Commands (parse_cmdl st data)
      else Inl (UnknownChunkID id'))"

definition parse_chunk :: "stream \<Rightarrow> (byte list \<times> int) \<times> stream" where
  "parse_chunk file =
     (let (chunk_id, file1) = read 4 file;
          (size_bytes, file2) = read 4 file1
      in ((chunk_id, from_bytes_little size_bytes), file2))"

text \<open>
  The first two statements of the loop body of \<^verbatim>\<open>parse_riff_file\<close>: the header of the chunk
  by \<^verbatim>\<open>parse_chunk\<close>, then \<^verbatim>\<open>file.read(chunk_size)\<close>.
\<close>

definition read_chunk :: "stream \<Rightarrow> (byte list \<times> byte list) \<times> stream" where
  "read_chunk file =
     (let ((chunk_id, chunk_size), file1) = parse_chunk file;
          (chunk_data, file2) = read (nat chunk_size) file1
      in ((chunk_id, chunk_data), file2))"

text \<open>
  One iteration of the \<^verbatim>\<open>while file.tell() < riff_size\<close> loop of \<^verbatim>\<open>parse_riff_file\<close>: the chunk
  is read, its tag decoded, its payload parsed; the result is the entry to store in
  \<^verbatim>\<open>cindex\<close>, with the session and the file after the chunk.
\<close>

definition riff_step ::
  "decompressor \<Rightarrow> session \<Rightarrow> stream \<Rightarrow>
     py_error + ((pystr \<times> chunk_value) \<times> session \<times> stream)" where
  "riff_step zlib_decompress st file =
     (let ((chunk_id, chunk_data), file') = read_chunk file
      in case decode chunk_id of
           None \<Rightarrow> Inl UnicodeDecodeError
         | Some id' \<Rightarrow>
             (case parse_data zlib_decompress st id' chunk_data of
                Inl e \<Rightarrow> Inl e
              | Inr (v, st') \<Rightarrow> Inr ((id', v), st', file')))"

lemma parse_data_empty_id: "parse_data zl st [] data = Inl (UnknownChunkID [])"
  by (simp add: parse_data_def str_def)

lemma riff_step_measure:
  assumes "riff_step zl st file = Inr (kv, st', file')"
  shows "length (buf file') - pos file' < length (buf file) - pos file"
proof -
  define chunk_id where "chunk_id = fst (read 4 file)"
  define file1 where "file1 = snd (read 4 file)"
  define file2 where "file2 = snd (read 4 file1)"
  define n where "n = nat (from_bytes_little (fst (read 4 file1)))"
  have f': "file' = snd (read n file2)" and ok: "decode chunk_id \<noteq> None"
    and pd: "\<exists>id' d r. decode chunk_id = Some id' \<and> parse_data zl st id' d = Inr r"
    using assms
    by (auto simp add: riff_step_def read_chunk_def parse_chunk_def split_beta Let_def
        chunk_id_def file1_def file2_def n_def split: option.splits sum.splits)
  have "chunk_id \<noteq> []"
  proof
    assume "chunk_id = []"
    then have "decode chunk_id = Some []" by (simp add: decode_def)
    then show False using pd by (auto simp add: parse_data_empty_id)
  qed
  then have lt: "pos file < length (buf file)"
    by (auto simp add: chunk_id_def read_def Let_def)
  then have "pos file < pos file1"
    by (auto simp add: file1_def read_def Let_def)
  moreover have "adv file file1" "adv file1 file2" "adv file2 file'"
    by (simp_all add: file1_def file2_def f' read_adv)
  ultimately show ?thesis using lt by (auto simp add: adv_def)
qed

function parse_riff_loop ::
  "decompressor \<Rightarrow> int \<Rightarrow> session \<Rightarrow> (pystr \<rightharpoonup> chunk_value) \<Rightarrow> stream \<Rightarrow>
     py_error + ((pystr \<rightharpoonup> chunk_value) \<times> session \<times> stream)" where
  "parse_riff_loop zlib_decompress riff_size st cindex file =
     (if int (tell file) < riff_size
      then (case riff_step zlib_decompress st file of
              Inl e \<Rightarrow> Inl e
            | Inr ((id', v), st', file') \<Rightarrow>
                parse_riff_loop zlib_decompress riff_size st' (cindex(id' \<mapsto> v)) file')
      else Inr (cindex, st, file))"
  by pat_completeness auto
termination
  by (relation "measure (\<lambda>(zl, n, st, cindex, file). length (buf file) - pos file)")
     (auto intro: riff_step_measure)

declare parse_riff_loop.simps [simp del]

text \<open>
  \<^verbatim>\<open>parse_riff_file\<close> on a file with the given contents. Reading the opened file is reading
  a cursor over its contents. The three header fields are read and only the size is used.
\<close>

definition parse_riff_file ::
  "decompressor \<Rightarrow> byte list \<Rightarrow> py_error + ((pystr \<rightharpoonup> chunk_value) \<times> session)" where
  "parse_riff_file zlib_decompress contents =
     (let file = BytesIO contents;
          (riff_id, file1) = read 4 file;
          (size_bytes, file2) = read 4 file1;
          riff_size = from_bytes_little size_bytes;
          (format_id, file3) = read 4 file2
      in case parse_riff_loop zlib_decompress riff_size new_session Map.empty file3 of
           Inl e \<Rightarrow> Inl e
         | Inr (cindex, st, file') \<Rightarrow> Inr (cindex, st))"

section \<open>Auxiliary notions for stating the results\<close>

text \<open>
  The entries the loop of \<^verbatim>\<open>parse_riff_file\<close> stores, in file order: the same iteration as
  \<open>parse_riff_loop\<close>, collecting the entries in a list instead of storing them in the
  dictionary.
\<close>

function chunk_outputs_loop ::
  "decompressor \<Rightarrow> int \<Rightarrow> session \<Rightarrow> stream \<Rightarrow>
     py_error + ((pystr \<times> chunk_value) list \<times> session \<times> stream)" where
  "chunk_outputs_loop zlib_decompress riff_size st file =
     (if int (tell file) < riff_size
      then (case riff_step zlib_decompress st file of
              Inl e \<Rightarrow> Inl e
            | Inr (kv, st', file') \<Rightarrow>
                (case chunk_outputs_loop zlib_decompress riff_size st' file' of
                   Inl e \<Rightarrow> Inl e
                 | Inr (kvs, r) \<Rightarrow> Inr (kv # kvs, r)))
      else Inr ([], st, file))"
  by pat_completeness auto
termination
  by (relation "measure (\<lambda>(zl, n, st, file). length (buf file) - pos file)")
     (auto intro: riff_step_measure)

declare chunk_outputs_loop.simps [simp del]

definition chunk_outputs ::
  "decompressor \<Rightarrow> byte list \<Rightarrow> py_error + ((pystr \<times> chunk_value) list \<times> session)" where
  "chunk_outputs zlib_decompress contents =
     (let file = BytesIO contents;
          (riff_id, file1) = read 4 file;
          (size_bytes, file2) = read 4 file1;
          riff_size = from_bytes_little size_bytes;
          (format_id, file3) = read 4 file2
      in case chunk_outputs_loop zlib_decompress riff_size new_session file3 of
           Inl e \<Rightarrow> Inl e
         | Inr (kvs, st, file') \<Rightarrow> Inr (kvs, st))"


text \<open>
  \<^verbatim>\<open>zlib.decompress\<close> is a parameter of the model. To run the model on concrete files, the
  parameter is instantiated with \<open>zlib_stored\<close>, which inflates the zlib streams that consist
  of the header \<^verbatim>\<open>78 01\<close>, one final stored block and the Adler-32 checksum of its content,
  and rejects every other input. On the streams it accepts it returns what \<^verbatim>\<open>zlib.decompress\<close>
  returns, whatever the \<^verbatim>\<open>bufsize\<close>, which is only the initial size of the output buffer.
\<close>

definition adler32 :: "byte list \<Rightarrow> nat" where
  "adler32 bs =
     (let (a, b) = fold (\<lambda>x (a, b). ((a + unat x) mod 65521, (b + (a + unat x) mod 65521) mod 65521))
                     bs (1, 0)
      in b * 65536 + a)"

definition from_bytes_big :: "byte list \<Rightarrow> nat" where
  "from_bytes_big bs = fold (\<lambda>x n. n * 256 + unat x) bs 0"

definition zlib_stored :: decompressor where
  "zlib_stored z bufsize =
     (if 11 \<le> length z \<and> take 3 z = [120, 1, 1] \<and>
         unat (z ! 3) + 256 * unat (z ! 4) + (unat (z ! 5) + 256 * unat (z ! 6)) = 65535 \<and>
         length z = 11 + (unat (z ! 3) + 256 * unat (z ! 4)) \<and>
         from_bytes_big (drop (length z - 4) z) = adler32 (take (length z - 11) (drop 7 z))
      then Some (take (length z - 11) (drop 7 z))
      else None)"

text \<open>A call returns when it does not raise.\<close>

definition returns :: "py_error + 'a \<Rightarrow> bool" where
  "returns r = (case r of Inl e \<Rightarrow> False | Inr x \<Rightarrow> True)"

text \<open>A session whose string table holds the empty string only.\<close>

definition session0 :: session where
  "session0 = new_session\<lparr>string_table := Some [[]]\<rparr>"

text \<open>Storing a list of entries in the dictionary, in order: \<^verbatim>\<open>cindex[k] = v\<close> for each.\<close>

definition store :: "(pystr \<times> chunk_value) list \<Rightarrow> (pystr \<rightharpoonup> chunk_value) \<Rightarrow> (pystr \<rightharpoonup> chunk_value)" where
  "store kvs cindex = fold (\<lambda>(k, v) m. m(k \<mapsto> v)) kvs cindex"

text \<open>
  A container with two \<^verbatim>\<open>rela\<close> chunks, \<^verbatim>\<open>01 02 03\<close> and \<^verbatim>\<open>04 05 06\<close>. The size field is
  the file size less 8, as RIFF writers set it.
\<close>

definition two_rela_file :: "byte list" where
  "two_rela_file =
     [82, 73, 70, 70] @ [26, 0, 0, 0] @ [67, 100, 73, 120] @
     [114, 101, 108, 97] @ [3, 0, 0, 0] @ [1, 2, 3] @
     [114, 101, 108, 97] @ [3, 0, 0, 0] @ [4, 5, 6]"

text \<open>
  A \<^verbatim>\<open>symb\<close> payload whose first symbol has the kind byte 99, and a container holding it as
  its only chunk.
\<close>

definition bad_kind_payload :: "byte list" where
  "bad_kind_payload = replicate 8 0 @ [99, 0]"

definition bad_kind_file :: "byte list" where
  "bad_kind_file =
     [82, 73, 70, 70] @ [22, 0, 0, 0] @ [67, 100, 73, 120] @
     [115, 121, 109, 98] @ [10, 0, 0, 0] @ bad_kind_payload"




text \<open>
  Payloads of \<^verbatim>\<open>stri\<close> chunks, each a size field followed by a zlib stream of one stored
  block: the text \<^verbatim>\<open>foo\0bar\0\<close> with its size 8; the text \<^verbatim>\<open>foo\<close> of 3 bytes under the
  size field 5; and the single byte \<^verbatim>\<open>ff\<close>, which is not UTF-8.
\<close>

definition stri_foo_bar :: "byte list" where
  "stri_foo_bar =
     [8, 0, 0, 0] @
     [120, 1, 1, 8, 0, 247, 255, 102, 111, 111, 0, 98, 97, 114, 0, 12, 106, 2, 122]"

definition stri_wrong_size :: "byte list" where
  "stri_wrong_size =
     [5, 0, 0, 0] @ [120, 1, 1, 3, 0, 252, 255, 102, 111, 111, 2, 130, 1, 69]"

definition stri_not_text :: "byte list" where
  "stri_not_text = [1, 0, 0, 0] @ [120, 1, 1, 1, 0, 254, 255, 255, 1, 0, 1, 0]"

text \<open>
  The cursor of the \<^verbatim>\<open>parse_symb\<close> loop after \<open>n\<close> iterations: each of them finds bytes left
  and reads a symbol without raising. \<open>None\<close> when the loop ends or raises before that.
\<close>

fun symbols_read :: "session \<Rightarrow> nat \<Rightarrow> stream \<Rightarrow> stream option" where
  "symbols_read st 0 s = Some s"
| "symbols_read st (Suc n) s =
     (if tell s < length (buf s)
      then (case read_symbol st s of
              Inl e \<Rightarrow> None
            | Inr (symbol, s') \<Rightarrow> symbols_read st n s')
      else None)"

text \<open>
  The session and the file of the \<^verbatim>\<open>parse_riff_file\<close> loop after \<open>n\<close> iterations: each of them
  finds the position below \<^verbatim>\<open>riff_size\<close> and decodes a chunk without raising.
\<close>

fun chunks_read ::
  "decompressor \<Rightarrow> int \<Rightarrow> nat \<Rightarrow> session \<Rightarrow> stream \<Rightarrow> (session \<times> stream) option" where
  "chunks_read zlib_decompress riff_size 0 st f = Some (st, f)"
| "chunks_read zlib_decompress riff_size (Suc n) st f =
     (if int (tell f) < riff_size
      then (case riff_step zlib_decompress st f of
              Inl e \<Rightarrow> None
            | Inr (kv, st', f') \<Rightarrow> chunks_read zlib_decompress riff_size n st' f')
      else None)"

text \<open>
  The size field and the file after the three header reads of \<^verbatim>\<open>parse_riff_file\<close>.
\<close>

definition riff_header :: "byte list \<Rightarrow> int \<times> stream" where
  "riff_header contents =
     (let (riff_id, file1) = read 4 (BytesIO contents);
          (size_bytes, file2) = read 4 file1;
          (format_id, file3) = read 4 file2
      in (from_bytes_little size_bytes, file3))"

text \<open>
  A \<^verbatim>\<open>stri\<close> payload for the one-byte text \<^verbatim>\<open>\0\<close> (the table of two empty strings); a \<^verbatim>\<open>symb\<close>
  payload of a symbol with kind 1 followed by a symbol with the kind byte 99; and the
  container holding the two as chunks, in this order.
\<close>

definition stri_nul :: "byte list" where
  "stri_nul = [1, 0, 0, 0] @ [120, 1, 1, 1, 0, 254, 255, 0, 0, 1, 0, 1]"

definition good_then_bad_payload :: "byte list" where
  "good_then_bad_payload = replicate 8 0 @ [1] @ replicate 22 0 @ replicate 8 0 @ [99]"

definition good_then_bad_file :: "byte list" where
  "good_then_bad_file =
     [82, 73, 70, 70] @ [76, 0, 0, 0] @ [67, 100, 73, 120] @
     [115, 116, 114, 105] @ [16, 0, 0, 0] @ stri_nul @
     [115, 121, 109, 98] @ [40, 0, 0, 0] @ good_then_bad_payload"

text \<open>A container with a chunk tagged \<^verbatim>\<open>xxxx\<close> followed by the \<^verbatim>\<open>symb\<close> chunk with kind byte 99.\<close>

definition unknown_then_bad_kind_file :: "byte list" where
  "unknown_then_bad_kind_file =
     [82, 73, 70, 70] @ [34, 0, 0, 0] @ [67, 100, 73, 120] @
     [120, 120, 120, 120] @ [4, 0, 0, 0] @ [1, 2, 3, 4] @
     [115, 121, 109, 98] @ [10, 0, 0, 0] @ bad_kind_payload"

text \<open>
  A container with a \<^verbatim>\<open>rela\<close> chunk \<^verbatim>\<open>01 02 03\<close> followed by a \<^verbatim>\<open>rela\<close> chunk with an empty
  payload. The size field is the file size less 8, so the second chunk starts where the
  size field ends the loop.
\<close>

definition rela_then_empty_rela_file :: "byte list" where
  "rela_then_empty_rela_file =
     [82, 73, 70, 70] @ [23, 0, 0, 0] @ [67, 100, 73, 120] @
     [114, 101, 108, 97] @ [3, 0, 0, 0] @ [1, 2, 3] @
     [114, 101, 108, 97] @ [0, 0, 0, 0]"


section \<open>Where the record decoders stop\<close>

lemma adv_step:
  assumes "advances m" "m s = Inr (x, s1)" "pos s \<le> length (buf s)"
  shows "buf s1 = buf s \<and> pos s1 \<le> length (buf s1)"
proof -
  have "adv s s1" using assms(1,2) by (auto simp add: advances_def)
  then show ?thesis using assms(3) by (auto simp add: adv_def)
qed

lemma parse_symb_loop_end:
  "parse_symb_loop st acc s = Inr (r, s') \<Longrightarrow> pos s \<le> length (buf s) \<Longrightarrow>
   buf s' = buf s \<and> pos s' = length (buf s)"
proof (induction st acc s rule: parse_symb_loop.induct)
  case (1 st acc s)
  show ?case
  proof (cases "tell s < length (buf s)")
    case True
    then obtain x s1 where m: "read_symbol st s = Inr (x, s1)"
      and l: "parse_symb_loop st (acc @ [x]) s1 = Inr (r, s')"
      using "1.prems"(1) by (subst (asm) parse_symb_loop.simps) (auto split: sum.splits)
    have a: "buf s1 = buf s \<and> pos s1 \<le> length (buf s1)"
      using advances_read_symbol m "1.prems"(2) by (rule adv_step)
    then show ?thesis using "1.IH" [OF True m refl l] by auto
  next
    case False
    then show ?thesis
      using "1.prems" by (subst (asm) parse_symb_loop.simps) (auto simp add: tell_def)
  qed
qed


lemma parse_refs_loop_end:
  "parse_refs_loop st acc s = Inr (r, s') \<Longrightarrow> pos s \<le> length (buf s) \<Longrightarrow>
   buf s' = buf s \<and> pos s' = length (buf s)"
proof (induction st acc s rule: parse_refs_loop.induct)
  case (1 st acc s)
  show ?case
  proof (cases "tell s < length (buf s)")
    case True
    then obtain x s1 where m: "read_ref st s = Inr (x, s1)"
      and l: "parse_refs_loop st (acc @ [x]) s1 = Inr (r, s')"
      using "1.prems"(1) by (subst (asm) parse_refs_loop.simps) (auto split: sum.splits)
    have a: "buf s1 = buf s \<and> pos s1 \<le> length (buf s1)"
      using advances_read_ref m "1.prems"(2) by (rule adv_step)
    then show ?thesis using "1.IH" [OF True m refl l] by auto
  next
    case False
    then show ?thesis
      using "1.prems" by (subst (asm) parse_refs_loop.simps) (auto simp add: tell_def)
  qed
qed

lemma parse_rela_loop_end:
  "parse_rela_loop acc s = Inr (r, s') \<Longrightarrow> pos s \<le> length (buf s) \<Longrightarrow>
   buf s' = buf s \<and> pos s' = length (buf s)"
proof (induction acc s rule: parse_rela_loop.induct)
  case (1 acc s)
  show ?case
  proof (cases "tell s < length (buf s)")
    case True
    then obtain x s1 where m: "read_relation s = Inr (x, s1)"
      and l: "parse_rela_loop (acc @ [x]) s1 = Inr (r, s')"
      using "1.prems"(1) by (subst (asm) parse_rela_loop.simps) (auto split: sum.splits)
    have a: "buf s1 = buf s \<and> pos s1 \<le> length (buf s1)"
      using advances_read_relation m "1.prems"(2) by (rule adv_step)
    then show ?thesis using "1.IH" [OF True m refl l] by auto
  next
    case False
    then show ?thesis
      using "1.prems" by (subst (asm) parse_rela_loop.simps) (auto simp add: tell_def)
  qed
qed

lemma parse_srcs_loop_end:
  "parse_srcs_loop st acc s = Inr (r, s') \<Longrightarrow> pos s \<le> length (buf s) \<Longrightarrow>
   buf s' = buf s \<and> pos s' = length (buf s)"
proof (induction st acc s rule: parse_srcs_loop.induct)
  case (1 st acc s)
  show ?case
  proof (cases "tell s < length (buf s)")
    case True
    then obtain x s1 where m: "read_src st s = Inr (x, s1)"
      and l: "parse_srcs_loop st (acc @ [x]) s1 = Inr (r, s')"
      using "1.prems"(1) by (subst (asm) parse_srcs_loop.simps) (auto split: sum.splits)
    have a: "buf s1 = buf s \<and> pos s1 \<le> length (buf s1)"
      using advances_read_src m "1.prems"(2) by (rule adv_step)
    then show ?thesis using "1.IH" [OF True m refl l] by auto
  next
    case False
    then show ?thesis
      using "1.prems" by (subst (asm) parse_srcs_loop.simps) (auto simp add: tell_def)
  qed
qed

lemma parse_cmdl_loop_end:
  "parse_cmdl_loop st acc s = Inr (r, s') \<Longrightarrow> pos s \<le> length (buf s) \<Longrightarrow>
   buf s' = buf s \<and> pos s' = length (buf s)"
proof (induction st acc s rule: parse_cmdl_loop.induct)
  case (1 st acc s)
  show ?case
  proof (cases "tell s < length (buf s)")
    case True
    then obtain x s1 where m: "read_command st s = Inr (x, s1)"
      and l: "parse_cmdl_loop st (acc @ [x]) s1 = Inr (r, s')"
      using "1.prems"(1) by (subst (asm) parse_cmdl_loop.simps) (auto split: sum.splits)
    have a: "buf s1 = buf s \<and> pos s1 \<le> length (buf s1)"
      using advances_read_command m "1.prems"(2) by (rule adv_step)
    then show ?thesis using "1.IH" [OF True m refl l] by auto
  next
    case False
    then show ?thesis
      using "1.prems" by (subst (asm) parse_cmdl_loop.simps) (auto simp add: tell_def)
  qed
qed

lemma read_relation_returns:
  "read_relation s =
     Inr (\<lparr>rel_subject = fst (consume8 s),
           rel_predicate = fst (consume8 (snd (consume8 s))),
           rel_object = fst (consume8 (snd (consume8 (snd (consume8 s)))))\<rparr>,
          snd (consume8 (snd (consume8 (snd (consume8 s))))))"
  by (simp add: read_relation_def bind_r_def lift_r_def return_r_def split_beta)

lemma parse_rela_loop_returns: "\<exists>r s'. parse_rela_loop acc s = Inr (r, s')"
proof (induction acc s rule: parse_rela_loop.induct)
  case (1 acc s)
  show ?case
  proof (cases "tell s < length (buf s)")
    case True
    then show ?thesis
      using "1.IH" [OF True read_relation_returns refl]
      by (subst parse_rela_loop.simps) (simp add: read_relation_returns)
  next
    case False
    then show ?thesis by (subst parse_rela_loop.simps) simp
  qed
qed

lemma returns_case:
  "returns r \<Longrightarrow> (case r of Inl e \<Rightarrow> True | Inr x \<Rightarrow> P x) \<Longrightarrow>
   (case r of Inl e \<Rightarrow> False | Inr x \<Rightarrow> P x)"
  by (cases r) (simp_all add: returns_def)

lemma symb_example_returns: "returns (parse_symb_loop session0 [] (BytesIO (replicate 8 0 @ [1] @ replicate 22 0)))"
  by code_simp
lemma refs_example_returns: "returns (parse_refs_loop session0 [] (BytesIO (replicate 8 0 @ [1] @ replicate 14 0)))"
  by code_simp
lemma srcs_example_returns: "returns (parse_srcs_loop session0 [] (BytesIO ([0, 0] @ replicate 8 0 @ [1, 0])))"
  by code_simp
lemma cmdl_example_returns: "returns (parse_cmdl_loop session0 [] (BytesIO [0, 1, 0]))"
  by code_simp

section \<open>The dictionary and the chunks in file order\<close>

lemma store_Cons: "store ((k, v) # kvs) m = store kvs (m(k \<mapsto> v))"
  by (simp only: store_def fold_simps split_conv)

lemma store_eq: "store kvs m = m ++ map_of (rev kvs)"
proof (induction kvs arbitrary: m)
  case Nil
  then show ?case by (simp add: store_def)
next
  case (Cons kv kvs)
  obtain k v where kv: "kv = (k, v)" by (cases kv)
  have "store (kv # kvs) m = m(k \<mapsto> v) ++ map_of (rev kvs)"
    by (simp only: kv store_Cons Cons.IH)
  also have "\<dots> = m ++ ([k \<mapsto> v] ++ map_of (rev kvs))"
    by (rule ext) (simp add: map_add_def split: option.splits)
  also have "[k \<mapsto> v] ++ map_of (rev kvs) = map_of (rev (kv # kvs))"
    by (simp add: kv)
  finally show ?case .
qed

lemma parse_riff_loop_outputs:
  "parse_riff_loop zl n st m f =
     (case chunk_outputs_loop zl n st f of
        Inl e \<Rightarrow> Inl e
      | Inr (kvs, st', f') \<Rightarrow> Inr (store kvs m, st', f'))"
proof (induction zl n st m f rule: parse_riff_loop.induct)
  case (1 zl n st m f)
  show ?case
  proof (cases "int (tell f) < n")
    case False
    then show ?thesis
      by (subst parse_riff_loop.simps, subst chunk_outputs_loop.simps) (simp add: store_def)
  next
    case True
    show ?thesis
    proof (cases "riff_step zl st f")
      case (Inl e)
      then show ?thesis using True
        by (subst parse_riff_loop.simps, subst chunk_outputs_loop.simps) simp
    next
      case (Inr r)
      then obtain k v st' f' where r: "riff_step zl st f = Inr ((k, v), st', f')"
        by (cases r) auto
      have "parse_riff_loop zl n st m f = parse_riff_loop zl n st' (m(k \<mapsto> v)) f'"
        using True r by (subst parse_riff_loop.simps) simp
      also have "\<dots> = (case chunk_outputs_loop zl n st' f' of
          Inl e \<Rightarrow> Inl e
        | Inr (kvs, st'', f'') \<Rightarrow> Inr (store kvs (m(k \<mapsto> v)), st'', f''))"
        using "1.IH" [OF True r refl refl refl] .
      also have "\<dots> = (case chunk_outputs_loop zl n st f of
          Inl e \<Rightarrow> Inl e
        | Inr (kvs, st'', f'') \<Rightarrow> Inr (store kvs m, st'', f''))"
        using True r
        by (subst (2) chunk_outputs_loop.simps) (simp add: store_Cons split: sum.splits)
      finally show ?thesis .
    qed
  qed
qed

lemma parse_riff_file_outputs:
  "parse_riff_file zl contents =
     (case chunk_outputs zl contents of
        Inl e \<Rightarrow> Inl e
      | Inr (kvs, st) \<Rightarrow> Inr (map_of (rev kvs), st))"
  by (simp add: parse_riff_file_def chunk_outputs_def parse_riff_loop_outputs store_eq
      split_beta Let_def split: sum.splits)

lemma map_of_rev_last:
  "t \<notin> fst ` set ys \<Longrightarrow> map_of (rev (xs @ (t, v) # ys)) t = Some v"
  by (simp add: map_add_def map_of_eq_None_iff [THEN iffD2] split: option.splits)

lemma two_rela_file_outputs:
  "chunk_outputs zlib_stored two_rela_file =
     Inr ([(str ''rela'', Relations [\<lparr>rel_subject = 1, rel_predicate = 2, rel_object = 3\<rparr>]),
           (str ''rela'', Relations [\<lparr>rel_subject = 4, rel_predicate = 5, rel_object = 6\<rparr>])],
          new_session\<lparr>relations := Some [\<lparr>rel_subject = 4, rel_predicate = 5, rel_object = 6\<rparr>]\<rparr>)"
  by code_simp

section \<open>Errors abort the decode\<close>

lemma bind_lift: "bind_r (lift_r f) g s = g (fst (f s)) (snd (f s))"
  by (simp add: bind_r_def lift_r_def split_beta)

lemma bind_of_result_Inl: "bind_r (of_result (Inl e)) g s = Inl e"
  by (simp add: bind_r_def of_result_def)

lemma bind_of_result_Inr: "bind_r (of_result (Inr x)) g s = g x s"
  by (simp add: bind_r_def of_result_def)

lemma SymbolKind_invalid:
  "k < 1 \<or> 26 < k \<Longrightarrow> SymbolKind k = Inl (NotAValidEnum ''SymbolKind'' k)"
  by (auto simp add: SymbolKind_def SymbolKind_members_def)

lemma SymbolKind_valid:
  assumes "1 \<le> k" "k \<le> 26"
  shows "\<exists>kind. SymbolKind k = Inr kind"
proof -
  have "k = 1 \<or> k = 2 \<or> k = 3 \<or> k = 4 \<or> k = 5 \<or> k = 6 \<or> k = 7 \<or>
      k = 8 \<or> k = 9 \<or> k = 10 \<or> k = 11 \<or> k = 12 \<or> k = 13 \<or> k = 14 \<or>
      k = 15 \<or> k = 16 \<or> k = 17 \<or> k = 18 \<or> k = 19 \<or> k = 20 \<or> k = 21 \<or>
      k = 22 \<or> k = 23 \<or> k = 24 \<or> k = 25 \<or> k = 26"
    using assms by arith
  then show ?thesis
    by (elim disjE) (simp_all add: SymbolKind_def SymbolKind_members_def)
qed

lemma SymbolLanguage_invalid:
  "l < 0 \<or> 3 < l \<Longrightarrow> SymbolLanguage l = Inl (NotAValidEnum ''SymbolLanguage'' l)"
  by (auto simp add: SymbolLanguage_def SymbolLanguage_members_def)

lemma read_symbol_enum_error:
  assumes "k = fst (consume8 (snd (consume_id s)))"
    and "l = fst (consume8 (snd (consume8 (snd (consume_id s)))))"
    and "k < 1 \<or> 26 < k \<or> l < 0 \<or> 3 < l"
  shows "read_symbol st s =
     Inl (if k < 1 \<or> 26 < k then NotAValidEnum ''SymbolKind'' k
          else NotAValidEnum ''SymbolLanguage'' l)"
proof (cases "k < 1 \<or> 26 < k")
  case True
  then have "SymbolKind k = Inl (NotAValidEnum ''SymbolKind'' k)"
    by (rule SymbolKind_invalid)
  then show ?thesis
    using True unfolding read_symbol_def assms(1)
    by (simp only: bind_lift bind_of_result_Inl if_True)
next
  case False
  then obtain kind where kind: "SymbolKind k = Inr kind"
    using SymbolKind_valid [of k] by auto
  have "l < 0 \<or> 3 < l" using False assms(3) by simp
  then have "SymbolLanguage l = Inl (NotAValidEnum ''SymbolLanguage'' l)"
    by (rule SymbolLanguage_invalid)
  then show ?thesis
    using False kind unfolding read_symbol_def assms(1,2)
    by (simp only: bind_lift bind_of_result_Inl bind_of_result_Inr if_False)
qed

lemma parse_symb_loop_error:
  "tell s < length (buf s) \<Longrightarrow> read_symbol st s = Inl e \<Longrightarrow> parse_symb_loop st acc s = Inl e"
  by (subst parse_symb_loop.simps) simp

lemma parse_data_symb:
  "parse_data zl st (str ''symb'') data = with_value Symbols (parse_symb st data)"
  by (simp add: parse_data_def str_def)

lemma parse_riff_loop_chunk:
  assumes "int (tell f) < riff_size" and "fst (read_chunk f) = (chunk_id, data)"
  shows "parse_riff_loop zl riff_size st cindex f =
     (case decode chunk_id of
        None \<Rightarrow> Inl UnicodeDecodeError
      | Some id' \<Rightarrow>
          (case parse_data zl st id' data of
             Inl e \<Rightarrow> Inl e
           | Inr (v, st') \<Rightarrow>
               parse_riff_loop zl riff_size st' (cindex(id' \<mapsto> v)) (snd (read_chunk f))))"
proof -
  have "riff_step zl st f =
     (case decode chunk_id of
        None \<Rightarrow> Inl UnicodeDecodeError
      | Some id' \<Rightarrow>
          (case parse_data zl st id' data of
             Inl e \<Rightarrow> Inl e
           | Inr (v, st') \<Rightarrow> Inr ((id', v), st', snd (read_chunk f))))"
    using assms(2) by (simp add: riff_step_def split_beta)
  then show ?thesis
    using assms(1)
    by (subst parse_riff_loop.simps) (simp split: option.splits sum.splits)
qed


lemma bad_kind_payload_bytes:
  "fst (consume8 (snd (consume_id (BytesIO bad_kind_payload)))) = 99"
  "fst (consume8 (snd (consume8 (snd (consume_id (BytesIO bad_kind_payload)))))) = 0"
  "tell (BytesIO bad_kind_payload) < length (buf (BytesIO bad_kind_payload))"
  by code_simp+

lemma bad_kind_file_chunk:
  "int (tell \<lparr>buf = bad_kind_file, pos = 12\<rparr>) < 22"
  "fst (read_chunk \<lparr>buf = bad_kind_file, pos = 12\<rparr>) = ([115, 121, 109, 98], bad_kind_payload)"
  "decode [115, 121, 109, 98] = Some (str ''symb'')"
  by code_simp+

lemma bad_kind_file_outputs:
  "chunk_outputs zlib_stored bad_kind_file = Inl (NotAValidEnum ''SymbolKind'' 99)"
  by code_simp

lemma bad_kind_file_result:
  "parse_riff_file zlib_stored bad_kind_file = Inl (NotAValidEnum ''SymbolKind'' 99)"
  by (simp add: parse_riff_file_outputs bad_kind_file_outputs)




section \<open>The string table\<close>

lemma zlib_stored_examples:
  "zlib_stored (drop 4 stri_foo_bar) (from_bytes_little (take 4 stri_foo_bar)) =
     Some [102, 111, 111, 0, 98, 97, 114, 0]"
  "zlib_stored (drop 4 stri_wrong_size) (from_bytes_little (take 4 stri_wrong_size)) =
     Some [102, 111, 111]"
  "zlib_stored (drop 4 stri_not_text) (from_bytes_little (take 4 stri_not_text)) = Some [255]"
  "zlib_stored (drop 4 []) (from_bytes_little (take 4 [])) = None"
  by (simp_all add: zlib_stored_def adler32_def from_bytes_big_def stri_foo_bar_def
      stri_wrong_size_def stri_not_text_def)

lemma decode_examples:
  "decode [102, 111, 111, 0, 98, 97, 114, 0] = Some [102, 111, 111, 0, 98, 97, 114, 0]"
  "decode [102, 111, 111] = Some [102, 111, 111]"
  "decode [255] = None"
  by (simp_all add: decode_def)

lemma split_examples:
  "split 0 [102, 111, 111, 0, 98, 97, 114, 0] = [str ''foo'', str ''bar'', []]"
  "split 0 [102, 111, 111] = [str ''foo'']"
  by (simp_all add: str_def)

lemma parse_stri_cases:
  "parse_stri zl st data =
     (case zl (drop 4 data) (from_bytes_little (take 4 data)) of
        None \<Rightarrow> Inl ZlibError
      | Some u \<Rightarrow>
          (case decode u of
             None \<Rightarrow> Inl UnicodeDecodeError
           | Some decoded \<Rightarrow> Inr (split 0 decoded, st\<lparr>string_table := Some (split 0 decoded)\<rparr>)))"
  by (simp add: parse_stri_def Let_def split: option.splits)

lemma parse_stri_examples:
  "parse_stri zlib_stored new_session stri_foo_bar =
     Inr ([str ''foo'', str ''bar'', []],
          new_session\<lparr>string_table := Some [str ''foo'', str ''bar'', []]\<rparr>)"
  "parse_stri zlib_stored new_session stri_wrong_size =
     Inr ([str ''foo''], new_session\<lparr>string_table := Some [str ''foo'']\<rparr>)"
  "parse_stri zlib_stored new_session stri_not_text = Inl UnicodeDecodeError"
  "parse_stri zlib_stored new_session [] = Inl ZlibError"
  by (simp_all only: parse_stri_cases zlib_stored_examples decode_examples split_examples
      option.case)

lemma consume_var_nonneg: "0 \<le> fst (consume_var s)"
  using spec_varint_bounds [of 0 "pending s"] pending_nonneg [of s]
  by (simp add: consume_var_char)

lemma consume_string_lookup:
  "string_table st = Some tbl \<Longrightarrow>
   consume_string st s =
     (if fst (consume_var s) < int (length tbl)
      then Inr (tbl ! nat (fst (consume_var s)), snd (consume_var s))
      else Inl IndexError)"
  using consume_var_nonneg [of s]
  by (simp add: consume_string_def bind_lift get_string_table_def bind_of_result_Inr
      of_result_def getitem_def)

section \<open>Decoding up to a symbol of a chunk\<close>

lemma parse_riff_file_header:
  "parse_riff_file zl contents =
     (case parse_riff_loop zl (fst (riff_header contents)) new_session Map.empty
             (snd (riff_header contents)) of
        Inl e \<Rightarrow> Inl e
      | Inr (cindex, st, f) \<Rightarrow> Inr (cindex, st))"
  by (simp add: parse_riff_file_def riff_header_def split_beta Let_def)

lemma symbols_read_loop_error:
  "symbols_read st n s0 = Some s \<Longrightarrow>
   (\<And>acc'. parse_symb_loop st acc' s = Inl e) \<Longrightarrow>
   parse_symb_loop st acc s0 = Inl e"
proof (induction n arbitrary: s0 acc)
  case 0
  then show ?case by simp
next
  case (Suc n)
  from Suc.prems(1) have lt: "tell s0 < length (buf s0)"
    by (simp split: if_splits)
  with Suc.prems(1) obtain x s1 where r: "read_symbol st s0 = Inr (x, s1)"
    and n: "symbols_read st n s1 = Some s"
    by (auto split: sum.splits)
  have "parse_symb_loop st acc s0 = parse_symb_loop st (acc @ [x]) s1"
    using lt r by (subst parse_symb_loop.simps) simp
  also have "\<dots> = Inl e"
    using n Suc.prems(2) by (rule Suc.IH)
  finally show ?case .
qed

lemma chunks_read_loop_error:
  "chunks_read zl riff_size m st0 f0 = Some (st, f) \<Longrightarrow>
   (\<And>cindex'. parse_riff_loop zl riff_size st cindex' f = Inl e) \<Longrightarrow>
   parse_riff_loop zl riff_size st0 cindex f0 = Inl e"
proof (induction m arbitrary: st0 f0 cindex)
  case 0
  then show ?case by simp
next
  case (Suc m)
  from Suc.prems(1) have lt: "int (tell f0) < riff_size"
    by (simp split: if_splits)
  with Suc.prems(1) obtain k v st1 f1 where r: "riff_step zl st0 f0 = Inr ((k, v), st1, f1)"
    and n: "chunks_read zl riff_size m st1 f1 = Some (st, f)"
    by (auto split: sum.splits)
  have "parse_riff_loop zl riff_size st0 cindex f0 =
      parse_riff_loop zl riff_size st1 (cindex(k \<mapsto> v)) f1"
    using lt r by (subst parse_riff_loop.simps) simp
  also have "\<dots> = Inl e"
    using n Suc.prems(2) by (rule Suc.IH)
  finally show ?case .
qed

lemma stri_nul_table:
  "parse_stri zlib_stored new_session stri_nul =
     Inr ([[], []], new_session\<lparr>string_table := Some [[], []]\<rparr>)"
proof -
  have "zlib_stored (drop 4 stri_nul) (from_bytes_little (take 4 stri_nul)) = Some [0]"
    by (simp add: zlib_stored_def adler32_def from_bytes_big_def stri_nul_def)
  moreover have "decode [0] = Some [0]" by (simp add: decode_def)
  moreover have "split 0 [0::nat] = [[], []]" by simp
  ultimately show ?thesis by (simp only: parse_stri_cases option.case)
qed

lemma good_then_bad_file_header:
  "riff_header good_then_bad_file = (76, \<lparr>buf = good_then_bad_file, pos = 12\<rparr>)"
  by code_simp

lemma good_then_bad_file_stri:
  "read_chunk \<lparr>buf = good_then_bad_file, pos = 12\<rparr> =
     (([115, 116, 114, 105], stri_nul), \<lparr>buf = good_then_bad_file, pos = 36\<rparr>)"
  "decode [115, 116, 114, 105] = Some (str ''stri'')"
  by code_simp+

lemma good_then_bad_file_chunks:
  "chunks_read zlib_stored 76 1 new_session \<lparr>buf = good_then_bad_file, pos = 12\<rparr> =
     Some (new_session\<lparr>string_table := Some [[], []]\<rparr>, \<lparr>buf = good_then_bad_file, pos = 36\<rparr>)"
proof -
  have "parse_data zlib_stored new_session (str ''stri'') stri_nul =
      Inr (StringTable [[], []], new_session\<lparr>string_table := Some [[], []]\<rparr>)"
    by (simp add: parse_data_def str_def with_value_def stri_nul_table)
  then have "riff_step zlib_stored new_session \<lparr>buf = good_then_bad_file, pos = 12\<rparr> =
      Inr ((str ''stri'', StringTable [[], []]),
           new_session\<lparr>string_table := Some [[], []]\<rparr>,
           \<lparr>buf = good_then_bad_file, pos = 36\<rparr>)"
    by (simp add: riff_step_def good_then_bad_file_stri)
  then show ?thesis by (simp add: tell_def)
qed

lemma good_then_bad_file_symb:
  "int (tell \<lparr>buf = good_then_bad_file, pos = 36\<rparr>) < 76"
  "fst (read_chunk \<lparr>buf = good_then_bad_file, pos = 36\<rparr>) =
     ([115, 121, 109, 98], good_then_bad_payload)"
  "decode [115, 121, 109, 98] = Some (str ''symb'')"
  by code_simp+

lemma good_then_bad_payload_symbols:
  "symbols_read (new_session\<lparr>string_table := Some [[], []]\<rparr>) 1 (BytesIO good_then_bad_payload) =
     Some \<lparr>buf = good_then_bad_payload, pos = 31\<rparr>"
  "tell \<lparr>buf = good_then_bad_payload, pos = 31\<rparr> <
     length (buf \<lparr>buf = good_then_bad_payload, pos = 31\<rparr>)"
  "fst (consume8 (snd (consume_id \<lparr>buf = good_then_bad_payload, pos = 31\<rparr>))) = 99"
  "fst (consume8 (snd (consume8 (snd (consume_id \<lparr>buf = good_then_bad_payload, pos = 31\<rparr>))))) = 0"
  by code_simp+

lemma unknown_then_bad_kind_file_outputs:
  "chunk_outputs zlib_stored unknown_then_bad_kind_file = Inl (UnknownChunkID (str ''xxxx''))"
  "fst (read_chunk \<lparr>buf = unknown_then_bad_kind_file, pos = 24\<rparr>) =
     ([115, 121, 109, 98], bad_kind_payload)"
  by code_simp+

lemma rela_then_empty_rela_file_outputs:
  "chunk_outputs zlib_stored rela_then_empty_rela_file =
     Inr ([(str ''rela'', Relations [\<lparr>rel_subject = 1, rel_predicate = 2, rel_object = 3\<rparr>])],
          new_session\<lparr>relations := Some [\<lparr>rel_subject = 1, rel_predicate = 2, rel_object = 3\<rparr>]\<rparr>)"
  "fst (read_chunk \<lparr>buf = rela_then_empty_rela_file, pos = 23\<rparr>) = ([114, 101, 108, 97], [])"
  "decode [114, 101, 108, 97] = Some (str ''rela'')"
  "parse_rela (new_session\<lparr>relations := Some [\<lparr>rel_subject = 1, rel_predicate = 2, rel_object = 3\<rparr>]\<rparr>) [] =
     Inr ([], new_session\<lparr>relations := Some []\<rparr>)"
  by code_simp+


section \<open>The claims\<close>

text \<open>
  C1, as amended. The record decoders have no truncation check. A read past the end of the
  payload returns nothing (a byte or varint reads as 0, an id or digest comes out short), so
  a payload that ends partway through a record is not rejected for that: the \<^verbatim>\<open>rela\<close>
  decoder returns a record sequence for every payload. Whenever one of the five decoders
  (symb, refs, srcs, cmdl, rela) returns, its cursor stands exactly at the end of the
  payload.
\<close>

theorem decoders_end_at_payload_end:
  "(case parse_symb_loop st [] (BytesIO data) of
      Inl e \<Rightarrow> True | Inr (rs, s) \<Rightarrow> tell s = length data) \<and>
   (case parse_refs_loop st [] (BytesIO data) of
      Inl e \<Rightarrow> True | Inr (rs, s) \<Rightarrow> tell s = length data) \<and>
   (case parse_srcs_loop st [] (BytesIO data) of
      Inl e \<Rightarrow> True | Inr (rs, s) \<Rightarrow> tell s = length data) \<and>
   (case parse_cmdl_loop st [] (BytesIO data) of
      Inl e \<Rightarrow> True | Inr (rs, s) \<Rightarrow> tell s = length data) \<and>
   (case parse_rela_loop [] (BytesIO data) of
      Inl e \<Rightarrow> False | Inr (rs, s) \<Rightarrow> tell s = length data)"
proof -
  have p: "pos (BytesIO data) \<le> length (buf (BytesIO data))" and b: "buf (BytesIO data) = data"
    by (simp_all add: BytesIO_def)
  have "case parse_symb_loop st [] (BytesIO data) of
      Inl e \<Rightarrow> True | Inr (rs, s) \<Rightarrow> tell s = length data"
    using parse_symb_loop_end [OF _ p] by (auto simp add: tell_def b split: sum.splits)
  moreover have "case parse_refs_loop st [] (BytesIO data) of
      Inl e \<Rightarrow> True | Inr (rs, s) \<Rightarrow> tell s = length data"
    using parse_refs_loop_end [OF _ p] by (auto simp add: tell_def b split: sum.splits)
  moreover have "case parse_srcs_loop st [] (BytesIO data) of
      Inl e \<Rightarrow> True | Inr (rs, s) \<Rightarrow> tell s = length data"
    using parse_srcs_loop_end [OF _ p] by (auto simp add: tell_def b split: sum.splits)
  moreover have "case parse_cmdl_loop st [] (BytesIO data) of
      Inl e \<Rightarrow> True | Inr (rs, s) \<Rightarrow> tell s = length data"
    using parse_cmdl_loop_end [OF _ p] by (auto simp add: tell_def b split: sum.splits)
  moreover have "case parse_rela_loop [] (BytesIO data) of
      Inl e \<Rightarrow> False | Inr (rs, s) \<Rightarrow> tell s = length data"
    using parse_rela_loop_end [OF _ p] parse_rela_loop_returns [of "[]" "BytesIO data"]
    by (auto simp add: tell_def b split: sum.splits)
  ultimately show ?thesis by simp
qed


theorem decoders_end_at_payload_end_witness:
  "(case parse_symb_loop session0 [] (BytesIO (replicate 8 0 @ [1] @ replicate 22 0)) of
      Inl e \<Rightarrow> False | Inr (rs, s) \<Rightarrow> tell s = 31) \<and>
   (case parse_refs_loop session0 [] (BytesIO (replicate 8 0 @ [1] @ replicate 14 0)) of
      Inl e \<Rightarrow> False | Inr (rs, s) \<Rightarrow> tell s = 23) \<and>
   (case parse_srcs_loop session0 [] (BytesIO ([0, 0] @ replicate 8 0 @ [1, 0])) of
      Inl e \<Rightarrow> False | Inr (rs, s) \<Rightarrow> tell s = 12) \<and>
   (case parse_cmdl_loop session0 [] (BytesIO [0, 1, 0]) of
      Inl e \<Rightarrow> False | Inr (rs, s) \<Rightarrow> tell s = 3) \<and>
   (case parse_rela_loop [] (BytesIO [1, 2, 3]) of
      Inl e \<Rightarrow> False | Inr (rs, s) \<Rightarrow> tell s = 3)"
proof -
  note t = decoders_end_at_payload_end [where st = session0]
  have l1: "length (replicate 8 (0::byte) @ [1] @ replicate 22 0) = 31"
    and l2: "length (replicate 8 (0::byte) @ [1] @ replicate 14 0) = 23"
    and l3: "length ([0, 0] @ replicate 8 (0::byte) @ [1, 0]) = 12"
    and l4: "length [0, 1, 0 :: byte] = 3" and l5: "length [1, 2, 3 :: byte] = 3"
    by simp_all
  have "case parse_symb_loop session0 [] (BytesIO (replicate 8 0 @ [1] @ replicate 22 0)) of
      Inl e \<Rightarrow> False | Inr (rs, s) \<Rightarrow> tell s = 31"
    using t [of "replicate 8 0 @ [1] @ replicate 22 0"] unfolding l1
    by (intro returns_case [OF symb_example_returns]) blast
  moreover have "case parse_refs_loop session0 [] (BytesIO (replicate 8 0 @ [1] @ replicate 14 0)) of
      Inl e \<Rightarrow> False | Inr (rs, s) \<Rightarrow> tell s = 23"
    using t [of "replicate 8 0 @ [1] @ replicate 14 0"] unfolding l2
    by (intro returns_case [OF refs_example_returns]) blast
  moreover have "case parse_srcs_loop session0 [] (BytesIO ([0, 0] @ replicate 8 0 @ [1, 0])) of
      Inl e \<Rightarrow> False | Inr (rs, s) \<Rightarrow> tell s = 12"
    using t [of "[0, 0] @ replicate 8 0 @ [1, 0]"] unfolding l3
    by (intro returns_case [OF srcs_example_returns]) blast
  moreover have "case parse_cmdl_loop session0 [] (BytesIO [0, 1, 0]) of
      Inl e \<Rightarrow> False | Inr (rs, s) \<Rightarrow> tell s = 3"
    using t [of "[0, 1, 0]"] unfolding l4
    by (intro returns_case [OF cmdl_example_returns]) blast
  moreover have "case parse_rela_loop [] (BytesIO [1, 2, 3]) of
      Inl e \<Rightarrow> False | Inr (rs, s) \<Rightarrow> tell s = 3"
    using t [of "[1, 2, 3]"] unfolding l5 by blast
  ultimately show ?thesis by blast
qed
text \<open>
  C1 as stated fails: the \<^verbatim>\<open>rela\<close> payload \<^verbatim>\<open>01 02\<close>, a three-byte record truncated by one
  byte, is decoded to one relation whose object is 0, and nothing is raised. The other four
  decoders return as well on a payload cut inside its only record: a \<^verbatim>\<open>symb\<close> payload of 9
  bytes (the language byte and all that follows missing), a \<^verbatim>\<open>refs\<close> payload of 7 bytes, a
  \<^verbatim>\<open>srcs\<close> payload of 1 byte and a \<^verbatim>\<open>cmdl\<close> payload of 1 byte.
\<close>

theorem truncated_payload_counterexample:
  "parse_rela new_session [1, 2] =
     Inr ([\<lparr>rel_subject = 1, rel_predicate = 2, rel_object = 0\<rparr>],
          new_session\<lparr>relations := Some [\<lparr>rel_subject = 1, rel_predicate = 2, rel_object = 0\<rparr>]\<rparr>) \<and>
   parse_rela_loop [] (BytesIO [1, 2]) =
     Inr ([\<lparr>rel_subject = 1, rel_predicate = 2, rel_object = 0\<rparr>], \<lparr>buf = [1, 2], pos = 2\<rparr>) \<and>
   returns (parse_symb session0 (replicate 8 0 @ [1])) \<and>
   returns (parse_refs session0 (replicate 7 0)) \<and>
   returns (parse_srcs session0 [0]) \<and>
   returns (parse_cmdl session0 [0])"
  by code_simp

text \<open>
  C2. The varint decoder follows the stated policy on every input: from any cursor,
  \<^verbatim>\<open>consume_var\<close> returns the value that \<open>spec_varint\<close> computes from the pending bytes
  (the 7-bit groups at shifts 0, 7, 14, 21, 28, stopping after the first byte without the
  continuation bit or once the running shift has reached 32), and moves the cursor past
  exactly the bytes \<open>spec_varint\<close> used, never raising. When the shift cap stops it, the
  last byte's continuation bit is ignored and no further byte is consumed.
\<close>

theorem consume_var_policy:
  "consume_var s =
     (fst (spec_varint 0 (pending s)), advance (snd (spec_varint 0 (pending s))) s)"
  by (rule consume_var_char)

theorem consume_var_policy_witness:
  "consume_var \<lparr>buf = [255, 255, 255, 255, 255, 255], pos = 0\<rparr> =
     (2 ^ 35 - 1, \<lparr>buf = [255, 255, 255, 255, 255, 255], pos = 5\<rparr>) \<and>
   consume_var \<lparr>buf = [172, 2, 9], pos = 0\<rparr> = (300, \<lparr>buf = [172, 2, 9], pos = 2\<rparr>)"
  using consume_var_policy [of "\<lparr>buf = [255, 255, 255, 255, 255, 255], pos = 0\<rparr>"]
    consume_var_policy [of "\<lparr>buf = [172, 2, 9], pos = 0\<rparr>"]
  by (simp add: pending_def advance_def)

text \<open>
  C3, as amended. The string table decoder fails when decompression fails (with the
  decompressor's error), and when the decompressed bytes are not UTF-8 (with
  \<^verbatim>\<open>UnicodeDecodeError\<close>). Otherwise it returns the table obtained by splitting the decoded
  text at the null characters, whatever the size field says: the field is passed to the
  decompressor as the initial size of its output buffer and is never compared with the
  number of bytes decompressed.
\<close>

theorem parse_stri_outcomes:
  "(zl (drop 4 data) (from_bytes_little (take 4 data)) = None \<longrightarrow>
      parse_stri zl st data = Inl ZlibError) \<and>
   (zl (drop 4 data) (from_bytes_little (take 4 data)) = Some u \<and> decode u = None \<longrightarrow>
      parse_stri zl st data = Inl UnicodeDecodeError) \<and>
   (zl (drop 4 data) (from_bytes_little (take 4 data)) = Some u \<and> decode u = Some decoded \<longrightarrow>
      parse_stri zl st data = Inr (split 0 decoded, st\<lparr>string_table := Some (split 0 decoded)\<rparr>))"
  by (simp add: parse_stri_cases)


theorem parse_stri_outcomes_witness:
  "zlib_stored (drop 4 []) (from_bytes_little (take 4 [])) = None \<and>
   parse_stri zlib_stored new_session [] = Inl ZlibError \<and>
   zlib_stored (drop 4 stri_not_text) (from_bytes_little (take 4 stri_not_text)) = Some [255] \<and>
   decode [255] = None \<and>
   parse_stri zlib_stored new_session stri_not_text = Inl UnicodeDecodeError \<and>
   zlib_stored (drop 4 stri_foo_bar) (from_bytes_little (take 4 stri_foo_bar)) =
     Some [102, 111, 111, 0, 98, 97, 114, 0] \<and>
   decode [102, 111, 111, 0, 98, 97, 114, 0] = Some [102, 111, 111, 0, 98, 97, 114, 0] \<and>
   parse_stri zlib_stored new_session stri_foo_bar =
     Inr ([str ''foo'', str ''bar'', []],
          new_session\<lparr>string_table := Some [str ''foo'', str ''bar'', []]\<rparr>)"
proof -
  note t1 = parse_stri_outcomes [where zl = zlib_stored and data = "[]" and st = new_session]
  note t2 = parse_stri_outcomes [where zl = zlib_stored and data = stri_not_text
      and st = new_session and u = "[255]"]
  note t3 = parse_stri_outcomes [where zl = zlib_stored and data = stri_foo_bar
      and st = new_session and u = "[102, 111, 111, 0, 98, 97, 114, 0]"
      and decoded = "[102, 111, 111, 0, 98, 97, 114, 0]"]
  show ?thesis
    using t1 t2 t3
    by (simp only: zlib_stored_examples decode_examples split_examples simp_thms)
qed


text \<open>
  C3 as stated fails: for the payload whose size field is 5 and whose compressed block
  inflates to the 3 bytes \<^verbatim>\<open>foo\<close>, the decoder returns the table \<^verbatim>\<open>["foo"]\<close>.
\<close>

theorem parse_stri_size_counterexample:
  "from_bytes_little (take 4 stri_wrong_size) = 5 \<and>
   zlib_stored (drop 4 stri_wrong_size) 5 = Some [102, 111, 111] \<and>
   length [102, 111, 111 :: byte] = 3 \<and>
   parse_stri zlib_stored new_session stri_wrong_size =
     Inr ([str ''foo''], new_session\<lparr>string_table := Some [str ''foo'']\<rparr>)"
proof -
  have "from_bytes_little (take 4 stri_wrong_size) = 5"
    by (simp add: stri_wrong_size_def)
  then show ?thesis
    using zlib_stored_examples(2) parse_stri_examples(2) by simp
qed

text \<open>
  C4. When the string table decoder returns a table \<open>tbl\<close> of \<open>N\<close> entries, the table is the
  null-split of the decoded text and is the session's string table. Indexing it with
  \<open>0 \<le> i < N\<close> returns its \<open>i\<close>-th entry; indexing it with \<open>i \<ge> N\<close> raises \<^verbatim>\<open>IndexError\<close>.
  A string lookup from a cursor, \<^verbatim>\<open>consume_string\<close>, reads a varint \<open>idx\<close> and returns the
  \<open>idx\<close>-th entry when \<open>idx < N\<close>, and raises \<^verbatim>\<open>IndexError\<close> otherwise.
\<close>

theorem string_table_lookup:
  assumes "parse_stri zl st data = Inr (tbl, st')"
  shows "string_table st' = Some tbl \<and>
    (\<exists>u decoded. zl (drop 4 data) (from_bytes_little (take 4 data)) = Some u \<and>
       decode u = Some decoded \<and> tbl = split 0 decoded) \<and>
    (0 \<le> i \<and> i < int (length tbl) \<longrightarrow> getitem tbl i = Inr (tbl ! nat i)) \<and>
    (int (length tbl) \<le> i \<longrightarrow> getitem tbl i = Inl IndexError) \<and>
    consume_string st' s =
      (if fst (consume_var s) < int (length tbl)
       then Inr (tbl ! nat (fst (consume_var s)), snd (consume_var s))
       else Inl IndexError)"
proof -
  obtain u decoded where u: "zl (drop 4 data) (from_bytes_little (take 4 data)) = Some u"
    and d: "decode u = Some decoded" and tbl: "tbl = split 0 decoded"
    and st': "st' = st\<lparr>string_table := Some tbl\<rparr>"
    using assms by (auto simp add: parse_stri_cases split: option.splits)
  have s: "string_table st' = Some tbl" by (simp add: st')
  moreover have "\<exists>u decoded. zl (drop 4 data) (from_bytes_little (take 4 data)) = Some u \<and>
       decode u = Some decoded \<and> tbl = split 0 decoded"
    using u d tbl by blast
  moreover have "0 \<le> i \<and> i < int (length tbl) \<longrightarrow> getitem tbl i = Inr (tbl ! nat i)"
    by (simp add: getitem_def)
  moreover have "int (length tbl) \<le> i \<longrightarrow> getitem tbl i = Inl IndexError"
    by (auto simp add: getitem_def)
  moreover note consume_string_lookup [OF s, of s]
  ultimately show ?thesis by blast
qed


theorem string_table_lookup_witness:
  "parse_stri zlib_stored new_session stri_foo_bar =
     Inr ([str ''foo'', str ''bar'', []],
          new_session\<lparr>string_table := Some [str ''foo'', str ''bar'', []]\<rparr>) \<and>
   getitem [str ''foo'', str ''bar'', []] 1 = Inr (str ''bar'') \<and>
   getitem [str ''foo'', str ''bar'', []] 3 = Inl IndexError \<and>
   consume_string (new_session\<lparr>string_table := Some [str ''foo'', str ''bar'', []]\<rparr>)
     (BytesIO [0]) = Inr (str ''foo'', \<lparr>buf = [0], pos = 1\<rparr>) \<and>
   consume_string (new_session\<lparr>string_table := Some [str ''foo'', str ''bar'', []]\<rparr>)
     (BytesIO [3]) = Inl IndexError"
proof -
  note t = string_table_lookup [OF parse_stri_examples(1)]
  have v: "consume_var (BytesIO [0]) = (0, \<lparr>buf = [0], pos = 1\<rparr>)"
    "consume_var (BytesIO [3]) = (3, \<lparr>buf = [3], pos = 1\<rparr>)"
    by code_simp+
  show ?thesis
    using t [of 1 "BytesIO [0]"] t [of 3 "BytesIO [3]"] parse_stri_examples(1)
    by (simp add: v)
qed






text \<open>
  C6, as amended. Take a \<^verbatim>\<open>symb\<close> payload of which the decoder reads \<open>n\<close> symbols without
  error and then stands, with bytes left, at a symbol whose kind byte is outside 1..26, or
  whose kind byte is inside and whose language byte is outside 0..3. Then \<^verbatim>\<open>read_symbol\<close>
  raises the \<^verbatim>\<open>ValueError\<close> of the enumeration (kind first) there, and so do the loop of
  \<^verbatim>\<open>parse_symb\<close> from the start of the payload, \<^verbatim>\<open>parse_symb\<close> and \<^verbatim>\<open>parse_data\<close> for the tag
  \<^verbatim>\<open>symb\<close>: no symbol list is returned. And when the loop of \<^verbatim>\<open>parse_riff_file\<close> decodes \<open>m\<close>
  chunks of a file without error and then reaches that chunk (the position is below the
  size field of the header), \<^verbatim>\<open>parse_riff_file\<close> raises that error: the whole decode fails.
\<close>

theorem invalid_enum_aborts:
  assumes "symbols_read st n (BytesIO data) = Some s"
    and "tell s < length (buf s)"
    and "k = fst (consume8 (snd (consume_id s)))"
    and "l = fst (consume8 (snd (consume8 (snd (consume_id s)))))"
    and "k < 1 \<or> 26 < k \<or> l < 0 \<or> 3 < l"
    and "e = (if k < 1 \<or> 26 < k then NotAValidEnum ''SymbolKind'' k
              else NotAValidEnum ''SymbolLanguage'' l)"
  shows "read_symbol st s = Inl e \<and>
    parse_symb_loop st [] (BytesIO data) = Inl e \<and>
    parse_symb st data = Inl e \<and>
    parse_data zl st (str ''symb'') data = Inl e \<and>
    (riff_header contents = (riff_size, f0) \<and>
     chunks_read zl riff_size m new_session f0 = Some (st, f) \<and>
     int (tell f) < riff_size \<and> fst (read_chunk f) = (chunk_id, data) \<and>
     decode chunk_id = Some (str ''symb'') \<longrightarrow>
       parse_riff_file zl contents = Inl e)"
proof (intro conjI impI)
  show r: "read_symbol st s = Inl e"
    unfolding assms(6) using assms(3,4,5) by (rule read_symbol_enum_error)
  have a: "parse_symb_loop st acc s = Inl e" for acc
    using assms(2) r by (rule parse_symb_loop_error)
  show l: "parse_symb_loop st [] (BytesIO data) = Inl e"
    using assms(1) a by (rule symbols_read_loop_error)
  then show p: "parse_symb st data = Inl e"
    by (simp add: parse_symb_def)
  then show d: "parse_data zl st (str ''symb'') data = Inl e"
    by (simp add: parse_data_symb with_value_def)
  assume h: "riff_header contents = (riff_size, f0) \<and>
     chunks_read zl riff_size m new_session f0 = Some (st, f) \<and>
     int (tell f) < riff_size \<and> fst (read_chunk f) = (chunk_id, data) \<and>
     decode chunk_id = Some (str ''symb'')"
  then have "parse_riff_loop zl riff_size st cindex f = Inl e" for cindex
    using d by (simp add: parse_riff_loop_chunk)
  moreover have "chunks_read zl riff_size m new_session f0 = Some (st, f)"
    using h by simp
  ultimately have "parse_riff_loop zl riff_size new_session Map.empty f0 = Inl e"
    by (rule chunks_read_loop_error [rotated])
  with h show "parse_riff_file zl contents = Inl e"
    by (simp add: parse_riff_file_header)
qed



theorem invalid_enum_aborts_witness:
  "symbols_read (new_session\<lparr>string_table := Some [[], []]\<rparr>) 1 (BytesIO good_then_bad_payload) =
     Some \<lparr>buf = good_then_bad_payload, pos = 31\<rparr> \<and>
   fst (consume8 (snd (consume_id \<lparr>buf = good_then_bad_payload, pos = 31\<rparr>))) = 99 \<and>
   chunks_read zlib_stored 76 1 new_session \<lparr>buf = good_then_bad_file, pos = 12\<rparr> =
     Some (new_session\<lparr>string_table := Some [[], []]\<rparr>, \<lparr>buf = good_then_bad_file, pos = 36\<rparr>) \<and>
   read_symbol (new_session\<lparr>string_table := Some [[], []]\<rparr>)
     \<lparr>buf = good_then_bad_payload, pos = 31\<rparr> = Inl (NotAValidEnum ''SymbolKind'' 99) \<and>
   parse_symb (new_session\<lparr>string_table := Some [[], []]\<rparr>) good_then_bad_payload =
     Inl (NotAValidEnum ''SymbolKind'' 99) \<and>
   parse_data zlib_stored (new_session\<lparr>string_table := Some [[], []]\<rparr>) (str ''symb'')
     good_then_bad_payload = Inl (NotAValidEnum ''SymbolKind'' 99) \<and>
   parse_riff_file zlib_stored good_then_bad_file = Inl (NotAValidEnum ''SymbolKind'' 99)"
proof -
  note t = invalid_enum_aborts [where st = "new_session\<lparr>string_table := Some [[], []]\<rparr>"
      and n = 1 and data = good_then_bad_payload
      and s = "\<lparr>buf = good_then_bad_payload, pos = 31\<rparr>" and k = 99 and l = 0
      and e = "NotAValidEnum ''SymbolKind'' 99" and zl = zlib_stored
      and contents = good_then_bad_file and riff_size = 76
      and ?f0.0 = "\<lparr>buf = good_then_bad_file, pos = 12\<rparr>" and m = 1
      and f = "\<lparr>buf = good_then_bad_file, pos = 36\<rparr>" and chunk_id = "[115, 121, 109, 98]",
      OF good_then_bad_payload_symbols(1,2) good_then_bad_payload_symbols(3) [symmetric]
        good_then_bad_payload_symbols(4) [symmetric]]
  have "(99::int) < 1 \<or> 26 < (99::int) \<or> (0::int) < 0 \<or> 3 < (0::int)" by simp
  then show ?thesis
    using t good_then_bad_payload_symbols(1,3) good_then_bad_file_header
      good_then_bad_file_chunks good_then_bad_file_symb
    by simp
qed


text \<open>
  C6 as stated fails: a container whose first chunk has the tag \<^verbatim>\<open>xxxx\<close> and whose second
  chunk is a \<^verbatim>\<open>symb\<close> chunk with the kind byte 99 fails the decode with the unknown-chunk
  error of the first chunk, not with the error of the enumeration.
\<close>

theorem invalid_enum_counterexample:
  "fst (read_chunk \<lparr>buf = unknown_then_bad_kind_file, pos = 24\<rparr>) =
     ([115, 121, 109, 98], bad_kind_payload) \<and>
   decode [115, 121, 109, 98] = Some (str ''symb'') \<and>
   fst (consume8 (snd (consume_id (BytesIO bad_kind_payload)))) = 99 \<and>
   parse_riff_file zlib_stored unknown_then_bad_kind_file = Inl (UnknownChunkID (str ''xxxx''))"
  by (simp add: parse_riff_file_outputs unknown_then_bad_kind_file_outputs
      bad_kind_payload_bytes bad_kind_file_chunk)


text \<open>
  C7, as amended. A read of \<open>n\<close> bytes never fails: it returns the bytes that remain, at
  most \<open>n\<close> of them, and fewer than \<open>n\<close> (none on an exhausted buffer) when fewer remain,
  advancing the cursor by what it returned. On an exhausted buffer the single-byte read
  \<^verbatim>\<open>consume8\<close> returns 0 and the 8-byte id read \<^verbatim>\<open>consume_id\<close> returns the empty string, the
  cursor unchanged.
\<close>

theorem read_at_end:
  "fst (read n s) = take n (drop (pos s) (buf s)) \<and>
   length (fst (read n s)) = min n (length (buf s) - pos s) \<and>
   snd (read n s) = s\<lparr>pos := pos s + min n (length (buf s) - pos s)\<rparr> \<and>
   (length (buf s) \<le> pos s \<longrightarrow> consume8 s = (0, s) \<and> consume_id s = ([], s))"
  by (auto simp add: read_def Let_def consume8_def consume_id_def hex_def min_def)

theorem read_at_end_witness:
  "fst (read 8 (BytesIO [1, 2, 3])) = [1, 2, 3] \<and>
   snd (read 8 (BytesIO [1, 2, 3])) = \<lparr>buf = [1, 2, 3], pos = 3\<rparr> \<and>
   consume8 \<lparr>buf = [1, 2, 3], pos = 3\<rparr> = (0, \<lparr>buf = [1, 2, 3], pos = 3\<rparr>) \<and>
   consume_id \<lparr>buf = [1, 2, 3], pos = 3\<rparr> = ([], \<lparr>buf = [1, 2, 3], pos = 3\<rparr>)"
  using read_at_end [of 8 "BytesIO [1, 2, 3]"] read_at_end [of 1 "\<lparr>buf = [1, 2, 3], pos = 3\<rparr>"]
  by (simp add: BytesIO_def)

text \<open>
  C7 as stated fails: on an empty buffer \<^verbatim>\<open>consume8\<close> returns 0 and \<^verbatim>\<open>consume_id\<close> returns
  the empty string, and on a buffer of two bytes \<^verbatim>\<open>consume_id\<close> returns the four hexadecimal
  digits of those two bytes; none of them raises.
\<close>

theorem read_at_end_counterexample:
  "consume8 (BytesIO []) = (0, BytesIO []) \<and>
   consume_id (BytesIO []) = ([], BytesIO []) \<and>
   consume_id (BytesIO [1, 171]) = (''01ab'', \<lparr>buf = [1, 171], pos = 2\<rparr>)"
  by code_simp

text \<open>
  C8. Round trip: for every unsigned integer below \<open>2\<^sup>3\<^sup>2\<close>, decoding its standard
  continuation-bit base-128 encoding (wherever it stands in a buffer) yields the integer and
  leaves the cursor right after the encoding. And a byte sequence whose first five bytes all
  carry the continuation bit decodes without error to the value of the truncation policy:
  the five 7-bit groups, with exactly five bytes consumed.
\<close>

theorem varint_round_trip:
  "(v < 2 ^ 32 \<longrightarrow>
      consume_var \<lparr>buf = pre @ encode_varint v @ post, pos = length pre\<rparr> =
        (int v, \<lparr>buf = pre @ encode_varint v @ post,
                 pos = length pre + length (encode_varint v)\<rparr>)) \<and>
   (b0 AND 128 \<noteq> 0 \<and> b1 AND 128 \<noteq> 0 \<and> b2 AND 128 \<noteq> 0 \<and> b3 AND 128 \<noteq> 0 \<and>
    b4 AND 128 \<noteq> 0 \<longrightarrow>
      consume_var \<lparr>buf = pre @ [b0, b1, b2, b3, b4] @ post, pos = length pre\<rparr> =
        ((uint b0 AND 127) OR push_bit 7 (uint b1 AND 127) OR push_bit 14 (uint b2 AND 127) OR
           push_bit 21 (uint b3 AND 127) OR push_bit 28 (uint b4 AND 127),
         \<lparr>buf = pre @ [b0, b1, b2, b3, b4] @ post, pos = length pre + 5\<rparr>))"
proof (intro conjI impI)
  assume v: "v < 2 ^ 32"
  have "v < 2 ^ (35 - 0)" using v by simp
  then have "spec_varint 0 (map uint (encode_varint v) @ pending \<lparr>buf = post, pos = 0\<rparr>) =
      (push_bit 0 (int v), length (encode_varint v))"
    by (rule spec_varint_encode) simp_all
  then show "consume_var \<lparr>buf = pre @ encode_varint v @ post, pos = length pre\<rparr> =
        (int v, \<lparr>buf = pre @ encode_varint v @ post,
                 pos = length pre + length (encode_varint v)\<rparr>)"
    by (simp add: consume_var_char pending_at advance_at)
next
  assume c: "b0 AND 128 \<noteq> 0 \<and> b1 AND 128 \<noteq> 0 \<and> b2 AND 128 \<noteq> 0 \<and> b3 AND 128 \<noteq> 0 \<and>
    b4 AND 128 \<noteq> 0"
  then have "spec_varint 0 (map uint [b0, b1, b2, b3, b4] @ pending \<lparr>buf = post, pos = 0\<rparr>) =
     ((uint b0 AND 127) OR push_bit 7 (uint b1 AND 127) OR push_bit 14 (uint b2 AND 127) OR
           push_bit 21 (uint b3 AND 127) OR push_bit 28 (uint b4 AND 127), 5)"
    by (simp add: byte_cont spec_varint_cont spec_varint_stop del: spec_varint.simps)
  then show "consume_var \<lparr>buf = pre @ [b0, b1, b2, b3, b4] @ post, pos = length pre\<rparr> =
        ((uint b0 AND 127) OR push_bit 7 (uint b1 AND 127) OR push_bit 14 (uint b2 AND 127) OR
           push_bit 21 (uint b3 AND 127) OR push_bit 28 (uint b4 AND 127),
         \<lparr>buf = pre @ [b0, b1, b2, b3, b4] @ post, pos = length pre + 5\<rparr>)"
    by (simp only: consume_var_char pending_at fst_conv snd_conv)
       (simp add: advance_def)
qed

theorem varint_round_trip_witness:
  "(300::nat) < 2 ^ 32 \<and>
   consume_var \<lparr>buf = [7] @ encode_varint 300 @ [9], pos = 1\<rparr> =
     (300, \<lparr>buf = [7] @ encode_varint 300 @ [9], pos = 1 + length (encode_varint 300)\<rparr>) \<and>
   (255::byte) AND 128 \<noteq> 0 \<and> (129::byte) AND 128 \<noteq> 0 \<and>
   consume_var \<lparr>buf = [7] @ [255, 255, 255, 255, 129] @ [9], pos = 1\<rparr> =
     (2 ^ 28 + (2 ^ 28 - 1), \<lparr>buf = [7] @ [255, 255, 255, 255, 129] @ [9], pos = 6\<rparr>)"
  using varint_round_trip [of 300 "[7]" "[9]" 255 255 255 255 129]
  by simp

text \<open>
  C9, as amended. The result of \<^verbatim>\<open>parse_riff_file\<close> is the dictionary that maps each tag to
  the output of the last chunk with that tag among the chunks its loop reads, in file order
  (a chunk is read when it starts at a position below the size field of the header): it is
  \<open>map_of\<close> of the reversed list of the entries the loop decodes. So when these entries are
  \<open>xs\<close>, then \<open>(t, v)\<close>, then \<open>ys\<close> with no entry for \<open>t\<close> in \<open>ys\<close>, the result maps \<open>t\<close> to \<open>v\<close>,
  whatever \<open>xs\<close> holds for \<open>t\<close>: a later chunk's output replaces an earlier one's and is not
  appended to it.
\<close>

theorem last_chunk_wins:
  "parse_riff_file zl contents =
     (case chunk_outputs zl contents of
        Inl e \<Rightarrow> Inl e
      | Inr (kvs, st) \<Rightarrow> Inr (map_of (rev kvs), st)) \<and>
   (chunk_outputs zl contents = Inr (xs @ (t, v) # ys, st) \<and> t \<notin> fst ` set ys \<longrightarrow>
      (\<exists>cindex. parse_riff_file zl contents = Inr (cindex, st) \<and> cindex t = Some v))"
proof -
  have eq: "parse_riff_file zl contents =
     (case chunk_outputs zl contents of
        Inl e \<Rightarrow> Inl e
      | Inr (kvs, st) \<Rightarrow> Inr (map_of (rev kvs), st))"
    by (rule parse_riff_file_outputs)
  moreover have "\<exists>cindex. parse_riff_file zl contents = Inr (cindex, st) \<and> cindex t = Some v"
    if "chunk_outputs zl contents = Inr (xs @ (t, v) # ys, st)" "t \<notin> fst ` set ys"
    using that map_of_rev_last [of t ys xs v] by (simp add: eq)
  ultimately show ?thesis by blast
qed



theorem last_chunk_wins_witness:
  "chunk_outputs zlib_stored two_rela_file =
     Inr ([(str ''rela'', Relations [\<lparr>rel_subject = 1, rel_predicate = 2, rel_object = 3\<rparr>]),
           (str ''rela'', Relations [\<lparr>rel_subject = 4, rel_predicate = 5, rel_object = 6\<rparr>])],
          new_session\<lparr>relations := Some [\<lparr>rel_subject = 4, rel_predicate = 5, rel_object = 6\<rparr>]\<rparr>) \<and>
   (\<exists>cindex.
      parse_riff_file zlib_stored two_rela_file =
        Inr (cindex, new_session\<lparr>relations := Some [\<lparr>rel_subject = 4, rel_predicate = 5, rel_object = 6\<rparr>]\<rparr>) \<and>
      cindex (str ''rela'') = Some (Relations [\<lparr>rel_subject = 4, rel_predicate = 5, rel_object = 6\<rparr>]))"
  using last_chunk_wins [of zlib_stored two_rela_file
      "[(str ''rela'', Relations [\<lparr>rel_subject = 1, rel_predicate = 2, rel_object = 3\<rparr>])]"
      "str ''rela''" "Relations [\<lparr>rel_subject = 4, rel_predicate = 5, rel_object = 6\<rparr>]" "[]"
      "new_session\<lparr>relations := Some [\<lparr>rel_subject = 4, rel_predicate = 5, rel_object = 6\<rparr>]\<rparr>"]
    two_rela_file_outputs
  by simp

text \<open>
  C9 as stated fails: in the container with the \<^verbatim>\<open>rela\<close> chunk \<^verbatim>\<open>01 02 03\<close> followed by an
  empty \<^verbatim>\<open>rela\<close> chunk, whose size field is the file size less 8, the second chunk stands at
  offset 23 and would decode to no relations, but the loop ends at offset 23 and the result
  maps \<^verbatim>\<open>rela\<close> to the relation of the first chunk.
\<close>

theorem last_chunk_counterexample:
  "fst (read_chunk \<lparr>buf = rela_then_empty_rela_file, pos = 23\<rparr>) = ([114, 101, 108, 97], []) \<and>
   decode [114, 101, 108, 97] = Some (str ''rela'') \<and>
   parse_rela (new_session\<lparr>relations := Some [\<lparr>rel_subject = 1, rel_predicate = 2, rel_object = 3\<rparr>]\<rparr>) [] =
     Inr ([], new_session\<lparr>relations := Some []\<rparr>) \<and>
   parse_riff_file zlib_stored rela_then_empty_rela_file =
     Inr ([str ''rela'' \<mapsto> Relations [\<lparr>rel_subject = 1, rel_predicate = 2, rel_object = 3\<rparr>]],
          new_session\<lparr>relations := Some [\<lparr>rel_subject = 1, rel_predicate = 2, rel_object = 3\<rparr>]\<rparr>)"
  by (simp add: parse_riff_file_outputs rela_then_empty_rela_file_outputs)

text \<open>
  C10. From any cursor the varint decoder returns a value between 0 and \<open>2\<^sup>3\<^sup>5 - 1\<close> and moves
  the cursor forward by at most 5 bytes, within the same buffer. The fifth byte's 7 value
  bits are accumulated at shift 28, so the bound is reached: \<^verbatim>\<open>ff ff ff ff 7f\<close> decodes to
  \<open>2\<^sup>3\<^sup>5 - 1\<close>, a value of more than 32 bits. A first byte without the continuation bit is
  returned as the value, with one byte consumed.
\<close>

theorem consume_var_bounds:
  "(case consume_var s of
      (v, s') \<Rightarrow> 0 \<le> v \<and> v < 2 ^ 35 \<and> buf s' = buf s \<and> pos s \<le> pos s' \<and> pos s' \<le> pos s + 5) \<and>
   consume_var (BytesIO [255, 255, 255, 255, 127]) =
     (2 ^ 35 - 1, \<lparr>buf = [255, 255, 255, 255, 127], pos = 5\<rparr>) \<and>
   (pos s < length (buf s) \<and> buf s ! pos s AND 128 = 0 \<longrightarrow>
      consume_var s = (uint (buf s ! pos s), s\<lparr>pos := Suc (pos s)\<rparr>))"
proof (intro conjI impI)
  have b: "0 \<le> fst (spec_varint 0 (pending s)) \<and> fst (spec_varint 0 (pending s)) < 2 ^ 35 \<and>
      snd (spec_varint 0 (pending s)) + 0 div 7 \<le> 5"
    by (rule spec_varint_bounds) (simp_all add: pending_nonneg)
  then show "case consume_var s of
      (v, s') \<Rightarrow> 0 \<le> v \<and> v < 2 ^ 35 \<and> buf s' = buf s \<and> pos s \<le> pos s' \<and> pos s' \<le> pos s + 5"
    by (auto simp add: consume_var_char advance_def min_def)
next
  show "consume_var (BytesIO [255, 255, 255, 255, 127]) =
     (2 ^ 35 - 1, \<lparr>buf = [255, 255, 255, 255, 127], pos = 5\<rparr>)"
    by (simp add: consume_var_char BytesIO_def pending_def advance_def)
next
  assume a: "pos s < length (buf s) \<and> buf s ! pos s AND 128 = 0"
  then have "uint (buf s ! pos s) AND more' = 0"
    by (simp add: byte_cont more_eq)
  then show "consume_var s = (uint (buf s ! pos s), s\<lparr>pos := Suc (pos s)\<rparr>)"
    using a by (simp add: consume_var_def consume8_more)
qed

theorem consume_var_bounds_witness:
  "0 \<le> fst (consume_var (BytesIO [5, 1])) \<and> fst (consume_var (BytesIO [5, 1])) < 2 ^ 35 \<and>
   pos (snd (consume_var (BytesIO [5, 1]))) \<le> 5 \<and>
   (5 :: byte) AND 128 = 0 \<and>
   consume_var (BytesIO [5, 1]) = (5, \<lparr>buf = [5, 1], pos = 1\<rparr>)"
  using consume_var_bounds [of "BytesIO [5, 1]"]
  by (simp add: BytesIO_def split_beta)

end
